theory Spec2Isabelle
  imports Complex_Main "HOL-Library.Multiset"
begin

section \<open>Conventions of the embedding\<close>

text \<open>
  The program is \<^verbatim>\<open>diffusion.go\<close> (package paragon). Its \<^verbatim>\<open>float64\<close> values are
  embedded as real numbers: rounding error, infinities and NaN are not represented, and
  a division by zero, an infinity or NaN in Go, is 0 here; no statement below is made at
  a zero divisor. Token ids are Go \<^verbatim>\<open>int\<close>s and are embedded as \<open>int\<close>; lengths and
  loop indices are \<open>nat\<close>, so the step count, the sequence length and the vocabulary
  size are taken non-negative. Strings are byte strings read as ASCII text. A slice is a
  list, and its capacity is its length.
\<close>

section \<open>Tokenizer\<close>

record CustomTokenizer =
  Vocab :: "string \<rightharpoonup> int"
  ReverseVocab :: "int \<rightharpoonup> string"
  VocabSize :: nat
  SpecialTokens :: "int \<rightharpoonup> bool"

text \<open>\<^verbatim>\<open>strings.ToLower\<close> on ASCII text: \<^verbatim>\<open>A\<close>..\<^verbatim>\<open>Z\<close> move to \<^verbatim>\<open>a\<close>..\<^verbatim>\<open>z\<close>.\<close>

definition lower_char :: "char \<Rightarrow> char" where
  "lower_char c =
     (case map_of (zip ''ABCDEFGHIJKLMNOPQRSTUVWXYZ'' ''abcdefghijklmnopqrstuvwxyz'') c of
        Some l \<Rightarrow> l
      | None \<Rightarrow> c)"

definition ToLower :: "string \<Rightarrow> string" where
  "ToLower s = map lower_char s"

text \<open>The white space of \<^verbatim>\<open>strings.Fields\<close> on ASCII text: tab, newline, vertical tab,
  form feed, carriage return and space.\<close>

definition isSpace :: "char \<Rightarrow> bool" where
  "isSpace c = ((of_char c :: nat) \<in> {9, 10, 11, 12, 13, 32})"

text \<open>\<^verbatim>\<open>strings.Fields\<close>: the maximal runs of non-space characters, in order. \<open>cur\<close>
  is the field being read.\<close>

fun fields_from :: "string \<Rightarrow> string \<Rightarrow> string list" where
  "fields_from cur [] = (if cur = [] then [] else [cur])"
| "fields_from cur (c # cs) =
     (if isSpace c
      then (if cur = [] then fields_from [] cs else cur # fields_from [] cs)
      else fields_from (cur @ [c]) cs)"

definition Fields :: "string \<Rightarrow> string list" where
  "Fields s = fields_from [] s"

text \<open>\<^verbatim>\<open>strings.Join\<close>.\<close>

fun Join :: "string list \<Rightarrow> string \<Rightarrow> string" where
  "Join [] sep = []"
| "Join [w] sep = w"
| "Join (w # v # ws) sep = w @ sep @ Join (v # ws) sep"

text \<open>A Go map read at a missing key gives the zero value.\<close>

definition vocab_id :: "CustomTokenizer \<Rightarrow> string \<Rightarrow> int" where
  "vocab_id t w = (case Vocab t w of Some i \<Rightarrow> i | None \<Rightarrow> 0)"

definition is_special :: "CustomTokenizer \<Rightarrow> int \<Rightarrow> bool" where
  "is_special t i = (case SpecialTokens t i of Some b \<Rightarrow> b | None \<Rightarrow> False)"

definition specials :: "string list" where
  "specials = [''[PAD]'', ''[MASK]'', ''[CLS]'', ''[SEP]'']"

text \<open>The first loop of \<^verbatim>\<open>NewCustomTokenizer\<close>: special token \<open>i\<close> gets id \<open>i\<close>.\<close>

definition add_special :: "CustomTokenizer \<Rightarrow> nat \<Rightarrow> CustomTokenizer" where
  "add_special t i =
     t\<lparr>Vocab := (Vocab t)(specials ! i \<mapsto> int i),
       ReverseVocab := (ReverseVocab t)(int i \<mapsto> specials ! i),
       SpecialTokens := (SpecialTokens t)(int i \<mapsto> True)\<rparr>"

text \<open>The body of the second loop: a word not seen before gets the next id.\<close>

definition add_word :: "string \<Rightarrow> CustomTokenizer \<times> int \<Rightarrow> CustomTokenizer \<times> int" where
  "add_word w st =
     (case st of (t, nextID) \<Rightarrow>
        (case Vocab t w of
           Some _ \<Rightarrow> (t, nextID)
         | None \<Rightarrow>
             (t\<lparr>Vocab := (Vocab t)(w \<mapsto> nextID),
                ReverseVocab := (ReverseVocab t)(nextID \<mapsto> w)\<rparr>, nextID + 1)))"

definition add_sentence :: "string \<Rightarrow> CustomTokenizer \<times> int \<Rightarrow> CustomTokenizer \<times> int" where
  "add_sentence s st = fold add_word (Fields (ToLower s)) st"

definition empty_tokenizer :: CustomTokenizer where
  "empty_tokenizer =
     \<lparr>Vocab = Map.empty, ReverseVocab = Map.empty, VocabSize = 0, SpecialTokens = Map.empty\<rparr>"

definition NewCustomTokenizer :: "string list \<Rightarrow> CustomTokenizer" where
  "NewCustomTokenizer sentences =
     (let t0 = fold (\<lambda>i t. add_special t i) [0 ..< length specials] empty_tokenizer;
          (t, nextID) = fold add_sentence sentences (t0, int (length specials))
      in t\<lparr>VocabSize := nat nextID\<rparr>)"

definition Encode :: "CustomTokenizer \<Rightarrow> string \<Rightarrow> int list" where
  "Encode t text =
     map (\<lambda>w. case Vocab t w of Some i \<Rightarrow> i | None \<Rightarrow> vocab_id t ''[PAD]'')
       (Fields (ToLower text))"

definition decode_word :: "CustomTokenizer \<Rightarrow> int \<Rightarrow> string list" where
  "decode_word t i =
     (case ReverseVocab t i of
        Some word \<Rightarrow> (if \<not> is_special t i then [word] else [])
      | None \<Rightarrow> [])"

definition Decode :: "CustomTokenizer \<Rightarrow> int list \<Rightarrow> string" where
  "Decode t ids = Join (concat (map (decode_word t) ids)) '' ''"

section \<open>Configuration and model\<close>

record DiffusionConfig =
  NumTimesteps :: nat
  MaxLength :: nat
  LearningRate :: real
  Epochs :: nat
  Temperature :: real
  TopK :: int
  MaskScheduleStart :: real
  MaskScheduleEnd :: real

text \<open>The field \<^verbatim>\<open>Network\<close> points to the external sequence model; its methods are
  parameters of the operations that call them. The field \<^verbatim>\<open>SpecialTokens\<close> of the model
  is named \<open>ModelSpecialTokens\<close>, apart from the tokenizer's.\<close>

record DiffusionModel =
  Config :: DiffusionConfig
  Tokenizer :: CustomTokenizer
  ModelSpecialTokens :: "int \<rightharpoonup> bool"
  MaskFraction :: "real list"

text \<open>The body of the schedule loop of \<^verbatim>\<open>NewDiffusionModel\<close> at step \<open>t\<close>.
  \<^verbatim>\<open>NumTimesteps-1\<close> is an integer subtraction.\<close>

definition schedule_frac :: "DiffusionConfig \<Rightarrow> nat \<Rightarrow> real" where
  "schedule_frac config t =
     (let frac = MaskScheduleStart config
                 + (MaskScheduleEnd config - MaskScheduleStart config) * real t
                   / real_of_int (int (NumTimesteps config) - 1);
          frac = (if frac < 0 then 0 else frac);
          frac = (if frac > 1 then 1 else frac)
      in frac)"

definition NewDiffusionModel :: "DiffusionConfig \<Rightarrow> string list \<Rightarrow> DiffusionModel" where
  "NewDiffusionModel config sentences =
     (let tokenizer = NewCustomTokenizer sentences;
          d = \<lparr>Config = config, Tokenizer = tokenizer,
               ModelSpecialTokens = SpecialTokens tokenizer,
               MaskFraction = replicate (NumTimesteps config) 0\<rparr>
      in fold (\<lambda>t d. d\<lparr>MaskFraction := (MaskFraction d)[t := schedule_frac config t]\<rparr>)
           [0 ..< NumTimesteps config] d)"

section \<open>Run-time failures and the random source\<close>

text \<open>A Go run-time panic ends the operation; the operations that can panic return a
  sum, with the panic on the left.\<close>

datatype panic = IndexOutOfRange | SliceBoundsOutOfRange | InvalidArgument

text \<open>A \<^verbatim>\<open>for\<close> loop whose body may panic: the bodies run in order on the state, and the
  first panic ends the loop.\<close>

fun for_each :: "('a \<Rightarrow> 's \<Rightarrow> panic + 's) \<Rightarrow> 'a list \<Rightarrow> 's \<Rightarrow> panic + 's" where
  "for_each body [] s = Inr s"
| "for_each body (x # xs) s =
     (case body x s of Inl e \<Rightarrow> Inl e | Inr s' \<Rightarrow> for_each body xs s')"

text \<open>
  The global source of \<^verbatim>\<open>math/rand\<close> is read through two tapes: \<open>rnd p\<close> is the value
  of the \<open>p\<close>-th call of \<^verbatim>\<open>rand.Float64\<close>, and \<open>rni q\<close> the raw value behind the
  \<open>q\<close>-th integer draw, reduced modulo the bound of the call. An operation takes the
  position on the tape and returns the position after its draws.
\<close>

type_synonym float_tape = "nat \<Rightarrow> real"
type_synonym int_tape = "nat \<Rightarrow> nat"

text \<open>\<^verbatim>\<open>rand.Shuffle(n, swap)\<close> is the Fisher-Yates loop of the standard library:
  for \<open>i\<close> from \<open>n - 1\<close> down to \<open>1\<close>, swap entry \<open>i\<close> with entry \<open>j\<close>, drawn
  from \<open>0..i\<close>.\<close>

definition swap_entries :: "nat \<Rightarrow> nat \<Rightarrow> 'a list \<Rightarrow> 'a list" where
  "swap_entries i j xs = xs[i := xs ! j, j := xs ! i]"

fun shuffle_loop :: "int_tape \<Rightarrow> nat \<Rightarrow> nat \<Rightarrow> 'a list \<Rightarrow> 'a list \<times> nat" where
  "shuffle_loop rni 0 q xs = (xs, q)"
| "shuffle_loop rni (Suc i) q xs =
     shuffle_loop rni i (Suc q) (swap_entries (Suc i) (rni q mod (Suc i + 1)) xs)"

definition Shuffle :: "int_tape \<Rightarrow> nat \<Rightarrow> 'a list \<Rightarrow> 'a list \<times> nat" where
  "Shuffle rni q xs = shuffle_loop rni (length xs - 1) q xs"

text \<open>\<^verbatim>\<open>math.Round\<close> rounds to the nearest integer, halves away from zero.\<close>

definition Round :: "real \<Rightarrow> int" where
  "Round x = (if 0 \<le> x then \<lfloor>x + 1 / 2\<rfloor> else - \<lfloor>- x + 1 / 2\<rfloor>)"

section \<open>Noising\<close>

definition padTokenID :: "DiffusionModel \<Rightarrow> int" where
  "padTokenID d = vocab_id (Tokenizer d) ''[PAD]''"

definition maskTokenID :: "DiffusionModel \<Rightarrow> int" where
  "maskTokenID d = vocab_id (Tokenizer d) ''[MASK]''"

text \<open>The copy that opens \<^verbatim>\<open>AddNoise\<close> and \<^verbatim>\<open>AddNoiseMasked\<close>: the tokens cut or padded
  with \<^verbatim>\<open>[PAD]\<close> to \<^verbatim>\<open>MaxLength\<close>.\<close>

definition fit_length :: "DiffusionModel \<Rightarrow> int list \<Rightarrow> int list" where
  "fit_length d tokens =
     (if length tokens > MaxLength (Config d) then take (MaxLength (Config d)) tokens
      else tokens @ replicate (MaxLength (Config d) - length tokens) (padTokenID d))"

text \<open>The masking loop of \<^verbatim>\<open>AddNoise\<close>: the draw comes first, at every position.\<close>

fun add_noise_loop :: "real \<Rightarrow> int \<Rightarrow> int \<Rightarrow> float_tape \<Rightarrow> nat \<Rightarrow> int list \<Rightarrow> int list \<times> nat" where
  "add_noise_loop level padID maskID rnd p [] = ([], p)"
| "add_noise_loop level padID maskID rnd p (x # xs) =
     (let y = (if rnd p < level \<and> x \<noteq> padID then maskID else x);
          (ys, p') = add_noise_loop level padID maskID rnd (Suc p) xs
      in (y # ys, p'))"

definition AddNoise :: "DiffusionModel \<Rightarrow> float_tape \<Rightarrow> nat \<Rightarrow> int list \<Rightarrow> nat \<Rightarrow> int list \<times> nat" where
  "AddNoise d rnd p tokens t =
     (let noiseLevel = min (8 / 10) (real (t + 1) / real (NumTimesteps (Config d)))
      in add_noise_loop noiseLevel (padTokenID d) (maskTokenID d) rnd p (fit_length d tokens))"

text \<open>The masking loop of \<^verbatim>\<open>AddNoiseMasked\<close>: the padID test comes first, and a padID
  position draws nothing.\<close>

fun add_noise_masked_loop :: "real \<Rightarrow> int \<Rightarrow> int \<Rightarrow> float_tape \<Rightarrow> nat \<Rightarrow> int list \<Rightarrow> int list \<times> nat" where
  "add_noise_masked_loop level padID maskID rnd p [] = ([], p)"
| "add_noise_masked_loop level padID maskID rnd p (x # xs) =
     (if x \<noteq> padID
      then (let y = (if rnd p < level then maskID else x);
                (ys, p') = add_noise_masked_loop level padID maskID rnd (Suc p) xs
            in (y # ys, p'))
      else (let (ys, p') = add_noise_masked_loop level padID maskID rnd p xs in (x # ys, p')))"

definition AddNoiseMasked :: "DiffusionModel \<Rightarrow> float_tape \<Rightarrow> nat \<Rightarrow> int list \<Rightarrow> real \<Rightarrow> int list \<times> nat" where
  "AddNoiseMasked d rnd p tokens tVal =
     add_noise_masked_loop tVal (padTokenID d) (maskTokenID d) rnd p (fit_length d tokens)"

text \<open>\<^verbatim>\<open>BetterAddNoise\<close>. The table read panics outside the table, and the masking loop
  panics when it runs past the shuffled indices.\<close>

definition mask_index :: "nat list \<Rightarrow> int \<Rightarrow> nat \<Rightarrow> int list \<Rightarrow> panic + int list" where
  "mask_index idxes maskID i noisy =
     (if i < length idxes \<and> idxes ! i < length noisy
      then Inr (noisy[idxes ! i := maskID]) else Inl IndexOutOfRange)"

definition BetterAddNoise :: "DiffusionModel \<Rightarrow> int_tape \<Rightarrow> nat \<Rightarrow> int list \<Rightarrow> nat \<Rightarrow> panic + int list \<times> nat" where
  "BetterAddNoise d rni q x0 t =
     (let noisy = x0; padID = padTokenID d; maskID = maskTokenID d in
      if \<not> t < length (MaskFraction d) then Inl IndexOutOfRange
      else
        let fraction = MaskFraction d ! t in
        if fraction \<le> 0 then Inr (noisy, q)
        else
          let idxes = filter (\<lambda>i. x0 ! i \<noteq> padID) [0 ..< length x0];
              (idxes, q') = Shuffle rni q idxes;
              k = Round (real (length idxes) * fraction)
          in (case for_each (mask_index idxes maskID) [0 ..< nat k] noisy of
                Inl e \<Rightarrow> Inl e
              | Inr noisy \<Rightarrow> Inr (noisy, q')))"

section \<open>Reverse sampling\<close>

text \<open>
  The generators call two functions that are not part of \<^verbatim>\<open>diffusion.go\<close>: the forward
  pass of the network, \<open>fwd\<close>, from the one-hot rows to the rows of logits, and
  \<^verbatim>\<open>Softmax\<close>, \<open>sm\<close>. Both are parameters. A slice expression is checked against
  the length of the list it cuts.
\<close>

definition one_hot_row :: "nat \<Rightarrow> int \<Rightarrow> real list" where
  "one_hot_row V tok =
     (let row = replicate V 0
      in if 0 \<le> tok \<and> tok < int V then row[nat tok := 1] else row)"

definition one_hot :: "nat \<Rightarrow> int list \<Rightarrow> real list list" where
  "one_hot V current = map (one_hot_row V) current"

definition slice :: "'a list \<Rightarrow> nat \<Rightarrow> nat \<Rightarrow> panic + 'a list" where
  "slice xs lo hi =
     (if lo \<le> hi \<and> hi \<le> length xs then Inr (take (hi - lo) (drop lo xs))
      else Inl SliceBoundsOutOfRange)"

text \<open>\<^verbatim>\<open>sort.Slice\<close> with the comparison \<^verbatim>\<open>a.prob > b.prob\<close>. A short slice (at most
  twelve entries) the library sorts by insertion, which keeps entries of equal
  probability in their order; that is the sort taken here. For a longer slice the order
  among equal probabilities is the library's choice.\<close>

fun insert_desc :: "int \<times> real \<Rightarrow> (int \<times> real) list \<Rightarrow> (int \<times> real) list" where
  "insert_desc x [] = [x]"
| "insert_desc x (y # ys) = (if snd x > snd y then x # y # ys else y # insert_desc x ys)"

definition sort_desc :: "(int \<times> real) list \<Rightarrow> (int \<times> real) list" where
  "sort_desc xs = foldl (\<lambda>sorted x. insert_desc x sorted) [] xs"

text \<open>The slice expression \<^verbatim>\<open>topK[:k]\<close>.\<close>

definition take_topk :: "int \<Rightarrow> 'a list \<Rightarrow> panic + 'a list" where
  "take_topk k xs =
     (if 0 \<le> k \<and> k \<le> int (length xs) then Inr (take (nat k) xs)
      else Inl SliceBoundsOutOfRange)"

text \<open>The draw against the cumulative sums: the first candidate whose cumulative sum
  reaches \<open>r\<close>, and the first candidate of all when none does. Reading the first
  candidate of an empty list panics.\<close>

fun pick :: "real \<Rightarrow> real \<Rightarrow> (int \<times> real) list \<Rightarrow> int option" where
  "pick r cumulative [] = None"
| "pick r cumulative (c # rest) =
     (if r \<le> cumulative + snd c then Some (fst c) else pick r (cumulative + snd c) rest)"

definition draw :: "real \<Rightarrow> (int \<times> real) list \<Rightarrow> panic + int" where
  "draw r topK =
     (case topK of
        [] \<Rightarrow> Inl IndexOutOfRange
      | c # _ \<Rightarrow> Inr (case pick r 0 topK of Some i \<Rightarrow> i | None \<Rightarrow> fst c))"

text \<open>A re-masking round over the positions filled in this step.\<close>

definition remask :: "real \<Rightarrow> int \<Rightarrow> float_tape \<Rightarrow> nat \<Rightarrow> int list \<times> nat \<Rightarrow> int list \<times> nat" where
  "remask pRemask maskID rnd i st =
     (case st of (current, p) \<Rightarrow>
        (if rnd p < pRemask then current[i := maskID] else current, Suc p))"

text \<open>The last loop of both generators.\<close>

definition unmask :: "int \<Rightarrow> int list \<Rightarrow> int list" where
  "unmask maskID current = map (\<lambda>tok. if tok = maskID then 0 else tok) current"

subsection \<open>\<^verbatim>\<open>GenerateMasked\<close>\<close>

text \<open>The candidates of one masked position: every vocabulary entry with its
  probability over the temperature, the entry of \<^verbatim>\<open>[MASK]\<close> set to 0.\<close>

definition masked_candidates :: "DiffusionModel \<Rightarrow> real list \<Rightarrow> panic + (int \<times> real) list" where
  "masked_candidates d probs =
     (if length probs < VocabSize (Tokenizer d) then Inl IndexOutOfRange
      else Inr (map (\<lambda>j. (int j, if int j = maskTokenID d then 0
                                  else probs ! j / Temperature (Config d)))
                 [0 ..< VocabSize (Tokenizer d)]))"

definition sample_masked :: "DiffusionModel \<Rightarrow> real list \<Rightarrow> real \<Rightarrow> panic + int" where
  "sample_masked d probs r =
     (case masked_candidates d probs of
        Inl e \<Rightarrow> Inl e
      | Inr topK \<Rightarrow>
          (case take_topk (TopK (Config d)) (sort_desc topK) of
             Inl e \<Rightarrow> Inl e
           | Inr topK \<Rightarrow>
               let sum = sum_list (map snd topK);
                   topK = (if sum = 0
                           then map (\<lambda>c. (fst c, 1 / real_of_int (TopK (Config d)))) topK
                           else map (\<lambda>c. (fst c, snd c / sum)) topK)
               in draw r topK))"

definition masked_position ::
  "DiffusionModel \<Rightarrow> (real list \<Rightarrow> real list) \<Rightarrow> float_tape \<Rightarrow> real list list \<Rightarrow> nat
     \<Rightarrow> int list \<times> nat \<times> nat list \<Rightarrow> panic + int list \<times> nat \<times> nat list" where
  "masked_position d sm rnd output i st =
     (case st of (current, p, maskedPositions) \<Rightarrow>
        if current ! i = maskTokenID d
        then (case sample_masked d (sm (output ! i)) (rnd p) of
                Inl e \<Rightarrow> Inl e
              | Inr selected \<Rightarrow> Inr (current[i := selected], Suc p, maskedPositions @ [i]))
        else Inr st)"

definition output_row :: "DiffusionModel \<Rightarrow> real list list \<Rightarrow> nat \<Rightarrow> real list list \<Rightarrow> panic + real list list" where
  "output_row d outputFlat i output =
     (case outputFlat of
        [] \<Rightarrow> Inl IndexOutOfRange
      | row0 # _ \<Rightarrow>
          (case slice row0 (i * VocabSize (Tokenizer d)) ((i + 1) * VocabSize (Tokenizer d)) of
             Inl e \<Rightarrow> Inl e
           | Inr row \<Rightarrow> Inr (output @ [row])))"

definition masked_step ::
  "DiffusionModel \<Rightarrow> (real list list \<Rightarrow> real list list) \<Rightarrow> (real list \<Rightarrow> real list) \<Rightarrow> float_tape
     \<Rightarrow> nat \<Rightarrow> int list \<times> nat \<Rightarrow> panic + int list \<times> nat" where
  "masked_step d fwd sm rnd s st =
     (case st of (current, p) \<Rightarrow>
        let input = one_hot (VocabSize (Tokenizer d)) current;
            outputFlat = fwd input
        in case for_each (output_row d outputFlat) [0 ..< MaxLength (Config d)] [] of
             Inl e \<Rightarrow> Inl e
           | Inr output \<Rightarrow>
               (case for_each (masked_position d sm rnd output) [0 ..< MaxLength (Config d)]
                       (current, p, []) of
                  Inl e \<Rightarrow> Inl e
                | Inr (current, p, maskedPositions) \<Rightarrow>
                    if s > 1
                    then Inr (fold (remask (real (s - 1) / real s) (maskTokenID d) rnd)
                                maskedPositions (current, p))
                    else Inr (current, p)))"

text \<open>The token sequence \<^verbatim>\<open>GenerateMasked\<close> decodes, and the function itself.\<close>

definition GenerateMasked_tokens ::
  "DiffusionModel \<Rightarrow> (real list list \<Rightarrow> real list list) \<Rightarrow> (real list \<Rightarrow> real list) \<Rightarrow> float_tape
     \<Rightarrow> nat \<Rightarrow> panic + int list \<times> nat" where
  "GenerateMasked_tokens d fwd sm rnd p =
     (case for_each (masked_step d fwd sm rnd) (rev [1 ..< Suc (NumTimesteps (Config d))])
             (replicate (MaxLength (Config d)) (maskTokenID d), p) of
        Inl e \<Rightarrow> Inl e
      | Inr (current, p') \<Rightarrow> Inr (unmask (maskTokenID d) current, p'))"

definition GenerateMasked ::
  "DiffusionModel \<Rightarrow> (real list list \<Rightarrow> real list list) \<Rightarrow> (real list \<Rightarrow> real list) \<Rightarrow> float_tape
     \<Rightarrow> nat \<Rightarrow> panic + string \<times> nat" where
  "GenerateMasked d fwd sm rnd p =
     (case GenerateMasked_tokens d fwd sm rnd p of
        Inl e \<Rightarrow> Inl e
      | Inr (current, p') \<Rightarrow> Inr (Decode (Tokenizer d) current, p'))"

subsection \<open>\<^verbatim>\<open>GenerateBetter\<close>\<close>

text \<open>The two assignments to \<^verbatim>\<open>d.Config.TopK\<close> in front of the slice expression.\<close>

definition clamp_topk :: "DiffusionModel \<Rightarrow> nat \<Rightarrow> DiffusionModel" where
  "clamp_topk d n =
     (let d = (if TopK (Config d) < 1 then d\<lparr>Config := (Config d)\<lparr>TopK := 1\<rparr>\<rparr> else d);
          d = (if TopK (Config d) > int n then d\<lparr>Config := (Config d)\<lparr>TopK := int n\<rparr>\<rparr> else d)
      in d)"

text \<open>The probabilities of one masked position up to the test of the remaining mass:
  over the temperature when that exceeds \<open>10\<^sup>-\<^sup>1\<^sup>2\<close>, the entry of \<^verbatim>\<open>[MASK]\<close> set
  to 0.\<close>

definition better_probs :: "DiffusionModel \<Rightarrow> real list \<Rightarrow> panic + real list" where
  "better_probs d probs =
     (let probs = (if Temperature (Config d) > 1 / 10 ^ 12
                   then map (\<lambda>p. p / Temperature (Config d)) probs else probs)
      in if 0 \<le> maskTokenID d \<and> maskTokenID d < int (length probs)
         then Inr (probs[nat (maskTokenID d) := 0]) else Inl IndexOutOfRange)"

text \<open>The body of a masked position once the remaining mass has passed the test:
  renormalise, sort, clamp \<^verbatim>\<open>TopK\<close> in the model, keep the first \<^verbatim>\<open>TopK\<close> candidates
  and draw.\<close>

definition better_choice ::
  "float_tape \<Rightarrow> nat \<Rightarrow> DiffusionModel \<times> int list \<times> nat \<times> nat list \<Rightarrow> real list
     \<Rightarrow> panic + DiffusionModel \<times> int list \<times> nat \<times> nat list" where
  "better_choice rnd i st probs =
     (case st of (d, xcur, p, maskedPositions) \<Rightarrow>
        let probs = map (\<lambda>p. p / sum_list probs) probs;
            topKSlice = sort_desc (zip (map int [0 ..< length probs]) probs);
            d = clamp_topk d (length topKSlice)
        in case take_topk (TopK (Config d)) topKSlice of
             Inl e \<Rightarrow> Inl e
           | Inr topKSlice \<Rightarrow>
               (case draw (rnd p) topKSlice of
                  Inl e \<Rightarrow> Inl e
                | Inr chosen \<Rightarrow> Inr (d, xcur[i := chosen], Suc p, maskedPositions)))"

definition better_position ::
  "(real list \<Rightarrow> real list) \<Rightarrow> float_tape \<Rightarrow> real list \<Rightarrow> nat
     \<Rightarrow> DiffusionModel \<times> int list \<times> nat \<times> nat list
     \<Rightarrow> panic + DiffusionModel \<times> int list \<times> nat \<times> nat list" where
  "better_position sm rnd preds i st =
     (case st of (d, xcur, p, maskedPositions) \<Rightarrow>
        if xcur ! i = maskTokenID d
        then
          let maskedPositions = maskedPositions @ [i];
              start = i * VocabSize (Tokenizer d)
          in case slice preds start (start + VocabSize (Tokenizer d)) of
               Inl e \<Rightarrow> Inl e
             | Inr logits \<Rightarrow>
                 (case better_probs d (sm logits) of
                    Inl e \<Rightarrow> Inl e
                  | Inr probs \<Rightarrow>
                      if sum_list probs < 1 / 10 ^ 12
                      then Inr (d, xcur[i := 0], p, maskedPositions)
                      else better_choice rnd i (d, xcur, p, maskedPositions) probs)
        else Inr st)"

definition better_step ::
  "(real list list \<Rightarrow> real list list) \<Rightarrow> (real list \<Rightarrow> real list) \<Rightarrow> float_tape \<Rightarrow> nat
     \<Rightarrow> DiffusionModel \<times> int list \<times> nat \<Rightarrow> panic + DiffusionModel \<times> int list \<times> nat" where
  "better_step fwd sm rnd t st =
     (case st of (d, xcur, p) \<Rightarrow>
        let batchInput = one_hot (VocabSize (Tokenizer d)) xcur;
            output2D = fwd batchInput
        in case output2D of
             [] \<Rightarrow> Inl IndexOutOfRange
           | preds # _ \<Rightarrow>
               (case for_each (better_position sm rnd preds) [0 ..< length xcur] (d, xcur, p, []) of
                  Inl e \<Rightarrow> Inl e
                | Inr (d, xcur, p, maskedPositions) \<Rightarrow>
                    if t > 0
                    then (let (xcur, p) =
                                fold (remask (real t / real (NumTimesteps (Config d))) (maskTokenID d) rnd)
                                  maskedPositions (xcur, p)
                          in Inr (d, xcur, p))
                    else Inr (d, xcur, p)))"

text \<open>\<^verbatim>\<open>GenerateBetter\<close> writes to its receiver, so the model after the call is part of
  the result.\<close>

definition GenerateBetter ::
  "DiffusionModel \<Rightarrow> (real list list \<Rightarrow> real list list) \<Rightarrow> (real list \<Rightarrow> real list) \<Rightarrow> float_tape
     \<Rightarrow> nat \<Rightarrow> panic + DiffusionModel \<times> int list \<times> nat" where
  "GenerateBetter d fwd sm rnd p =
     (case for_each (better_step fwd sm rnd) (rev [0 ..< NumTimesteps (Config d)])
             (d, replicate (MaxLength (Config d)) (maskTokenID d), p) of
        Inl e \<Rightarrow> Inl e
      | Inr (d', xcur, p') \<Rightarrow> Inr (d', unmask (maskTokenID d) xcur, p'))"

subsection \<open>Predicates on models and runs\<close>

text \<open>The fields of a model other than \<^verbatim>\<open>Config.TopK\<close> agree.\<close>

definition topk_only :: "DiffusionModel \<Rightarrow> DiffusionModel \<Rightarrow> bool" where
  "topk_only d d' =
     (Tokenizer d' = Tokenizer d \<and> ModelSpecialTokens d' = ModelSpecialTokens d
      \<and> MaskFraction d' = MaskFraction d
      \<and> NumTimesteps (Config d') = NumTimesteps (Config d)
      \<and> MaxLength (Config d') = MaxLength (Config d)
      \<and> LearningRate (Config d') = LearningRate (Config d)
      \<and> Epochs (Config d') = Epochs (Config d)
      \<and> Temperature (Config d') = Temperature (Config d)
      \<and> MaskScheduleStart (Config d') = MaskScheduleStart (Config d)
      \<and> MaskScheduleEnd (Config d') = MaskScheduleEnd (Config d))"

text \<open>The network returns a first row of at least \<^verbatim>\<open>MaxLength * VocabSize\<close> logits,
  \<^verbatim>\<open>Softmax\<close> returns as many probabilities as it gets logits, and the id of
  \<^verbatim>\<open>[MASK]\<close> is a vocabulary entry.\<close>

definition well_shaped ::
  "DiffusionModel \<Rightarrow> (real list list \<Rightarrow> real list list) \<Rightarrow> (real list \<Rightarrow> real list) \<Rightarrow> bool" where
  "well_shaped d fwd sm =
     ((\<forall>input. fwd input \<noteq> []
          \<and> MaxLength (Config d) * VocabSize (Tokenizer d) \<le> length (hd (fwd input)))
      \<and> (\<forall>logits. length (sm logits) = length logits)
      \<and> 0 \<le> maskTokenID d \<and> maskTokenID d < int (VocabSize (Tokenizer d)))"

text \<open>The same model under another \<^verbatim>\<open>Temperature\<close>.\<close>

definition set_temperature :: "DiffusionModel \<Rightarrow> real \<Rightarrow> DiffusionModel" where
  "set_temperature d temp = d\<lparr>Config := (Config d)\<lparr>Temperature := temp\<rparr>\<rparr>"

text \<open>The divisor \<^verbatim>\<open>GenerateBetter\<close> applies: the temperature when it exceeds \<open>10\<^sup>-\<^sup>1\<^sup>2\<close>,
  and none (1) otherwise.\<close>

definition eff_temperature :: "real \<Rightarrow> real" where
  "eff_temperature temp = (if temp > 1 / 10 ^ 12 then temp else 1)"

text \<open>The probability mass left once the entry of \<^verbatim>\<open>[MASK]\<close> is set to 0.\<close>

definition remaining_mass :: "DiffusionModel \<Rightarrow> real list \<Rightarrow> real" where
  "remaining_mass d probs = sum_list (probs[nat (maskTokenID d) := 0])"

text \<open>Two temperatures put the remaining mass \<open>S\<close> on the same side of the threshold of
  \<^verbatim>\<open>GenerateBetter\<close>: the test \<^verbatim>\<open>sum < 1e-12\<close> is made on the mass divided by the
  temperature.\<close>

definition same_side :: "real \<Rightarrow> real \<Rightarrow> real \<Rightarrow> bool" where
  "same_side temp temp' S =
     ((S / eff_temperature temp < 1 / 10 ^ 12) = (S / eff_temperature temp' < 1 / 10 ^ 12))"

text \<open>The values a loop meets: \<open>met x s\<close> lists those of the iteration at \<open>x\<close> from the
  state \<open>s\<close>; the loop stops at the first panic, as \<open>for_each\<close> does.\<close>

fun for_each_met :: "('a \<Rightarrow> 's \<Rightarrow> real list) \<Rightarrow> ('a \<Rightarrow> 's \<Rightarrow> panic + 's) \<Rightarrow> 'a list \<Rightarrow> 's \<Rightarrow> real list" where
  "for_each_met met body [] s = []"
| "for_each_met met body (x # xs) s =
     met x s @ (case body x s of Inl e \<Rightarrow> [] | Inr s' \<Rightarrow> for_each_met met body xs s')"

text \<open>The remaining mass \<^verbatim>\<open>GenerateBetter\<close> meets at position \<open>i\<close>: that of the softmax
  of the logits of the position, when the position holds \<^verbatim>\<open>[MASK]\<close> and the run reaches
  the test \<^verbatim>\<open>sum < 1e-12\<close> there; none otherwise.\<close>

definition mass_at ::
  "(real list \<Rightarrow> real list) \<Rightarrow> real list \<Rightarrow> nat \<Rightarrow> DiffusionModel \<times> int list \<times> nat \<times> nat list
     \<Rightarrow> real list" where
  "mass_at sm preds i st =
     (case st of (d, xcur, p, maskedPositions) \<Rightarrow>
        if xcur ! i = maskTokenID d
        then (case slice preds (i * VocabSize (Tokenizer d))
                     (i * VocabSize (Tokenizer d) + VocabSize (Tokenizer d)) of
                Inl e \<Rightarrow> []
              | Inr logits \<Rightarrow>
                  if 0 \<le> maskTokenID d \<and> maskTokenID d < int (length (sm logits))
                  then [remaining_mass d (sm logits)] else [])
        else [])"

text \<open>The remaining masses met in one reverse step, and in a whole run of
  \<^verbatim>\<open>GenerateBetter\<close>, in the order of the run.\<close>

definition step_masses ::
  "(real list list \<Rightarrow> real list list) \<Rightarrow> (real list \<Rightarrow> real list) \<Rightarrow> float_tape \<Rightarrow> nat
     \<Rightarrow> DiffusionModel \<times> int list \<times> nat \<Rightarrow> real list" where
  "step_masses fwd sm rnd t st =
     (case st of (d, xcur, p) \<Rightarrow>
        (case fwd (one_hot (VocabSize (Tokenizer d)) xcur) of
           [] \<Rightarrow> []
         | preds # _ \<Rightarrow>
             for_each_met (mass_at sm preds) (better_position sm rnd preds) [0 ..< length xcur]
               (d, xcur, p, [])))"

definition GenerateBetter_masses ::
  "DiffusionModel \<Rightarrow> (real list list \<Rightarrow> real list list) \<Rightarrow> (real list \<Rightarrow> real list) \<Rightarrow> float_tape
     \<Rightarrow> nat \<Rightarrow> real list" where
  "GenerateBetter_masses d fwd sm rnd p =
     for_each_met (step_masses fwd sm rnd) (better_step fwd sm rnd)
       (rev [0 ..< NumTimesteps (Config d)])
       (d, replicate (MaxLength (Config d)) (maskTokenID d), p)"

text \<open>A state of \<^verbatim>\<open>GenerateBetter\<close> with the temperature of its model replaced.\<close>

definition retemp :: "real \<Rightarrow> DiffusionModel \<times> 'a \<Rightarrow> DiffusionModel \<times> 'a" where
  "retemp temp st = (set_temperature (fst st) temp, snd st)"

text \<open>A candidate with its probability multiplied by \<open>a\<close>.\<close>

definition scale :: "real \<Rightarrow> int \<times> real \<Rightarrow> int \<times> real" where
  "scale a c = (fst c, a * snd c)"

text \<open>Modelled from the spec: \<^verbatim>\<open>Softmax\<close> is defined outside \<^verbatim>\<open>diffusion.go\<close>; the spec
  writes \<open>probs = softmax(logits)\<close>. It is used as an instance of the parameter \<open>sm\<close>.\<close>

definition Softmax :: "real list \<Rightarrow> real list" where
  "Softmax logits = map (\<lambda>x. exp x / sum_list (map exp logits)) logits"

section \<open>Loss and error terms of the trainers\<close>

text \<open>The clipping of an error term to \<open>[-5, 5]\<close>.\<close>

definition clip :: "real \<Rightarrow> real" where
  "clip delta = (if delta > 5 then 5 else if delta < - 5 then - 5 else delta)"

text \<open>The loss of one position: \<^verbatim>\<open>loss -= math.Log(math.Max(probs[target], 1e-10))\<close>.\<close>

definition add_loss :: "real list \<Rightarrow> int \<Rightarrow> real \<Rightarrow> panic + real" where
  "add_loss probs target loss =
     (if 0 \<le> target \<and> target < int (length probs)
      then Inr (loss - ln (max (probs ! nat target) (1 / 10 ^ 10)))
      else Inl IndexOutOfRange)"

text \<open>The assignment \<^verbatim>\<open>errorTerms[start+m] = delta\<close> of the masked-loss trainers.\<close>

definition write_delta :: "real list \<Rightarrow> int \<Rightarrow> nat \<Rightarrow> nat \<Rightarrow> real list \<Rightarrow> panic + real list" where
  "write_delta probs target start m terms =
     (if m < length probs \<and> start + m < length terms
      then Inr (terms[start + m := clip (probs ! m - (if int m = target then 1 else 0))])
      else Inl IndexOutOfRange)"

definition write_zero :: "nat \<Rightarrow> nat \<Rightarrow> real list \<Rightarrow> panic + real list" where
  "write_zero start m terms =
     (if start + m < length terms then Inr (terms[start + m := 0]) else Inl IndexOutOfRange)"

subsection \<open>\<^verbatim>\<open>Train\<close>: every position\<close>

text \<open>One round of the loss loop and one round of the error-term loop of \<^verbatim>\<open>Train\<close>, for a
  sample \<open>tokens\<close> and the rows \<open>outp\<close> of the forward pass. Neither looks at the noised
  tokens or at \<^verbatim>\<open>[PAD]\<close>.\<close>

definition dense_loss :: "(real list \<Rightarrow> real list) \<Rightarrow> real list list \<Rightarrow> int list \<Rightarrow> nat \<Rightarrow> real \<Rightarrow> panic + real" where
  "dense_loss sm outp tokens i loss =
     (if \<not> i < length outp \<or> \<not> i < length tokens then Inl IndexOutOfRange
      else add_loss (sm (outp ! i)) (tokens ! i) loss)"

definition dense_error_row ::
  "(real list \<Rightarrow> real list) \<Rightarrow> real list list \<Rightarrow> int list \<Rightarrow> nat \<Rightarrow> real list list \<Rightarrow> panic + real list list" where
  "dense_error_row sm outp tokens i errorTerms =
     (if \<not> i < length outp then Inl IndexOutOfRange
      else
        let probs = sm (outp ! i) in
        if probs \<noteq> [] \<and> \<not> i < length tokens then Inl IndexOutOfRange
        else Inr (errorTerms
                  @ [map (\<lambda>j. clip (probs ! j - (if int j = tokens ! i then 1 else 0)))
                       [0 ..< length probs]]))"

text \<open>The body of the sample loop of \<^verbatim>\<open>Train\<close> up to the call of \<^verbatim>\<open>Backward\<close>: the step
  \<open>t\<close> is drawn, the sample noised, and the result holds the loss added to
  \<^verbatim>\<open>totalLoss\<close>, the error terms handed to \<^verbatim>\<open>Backward\<close>, and the tape positions.\<close>

definition Train_sample ::
  "DiffusionModel \<Rightarrow> (real list list \<Rightarrow> real list list) \<Rightarrow> (real list \<Rightarrow> real list)
     \<Rightarrow> float_tape \<Rightarrow> int_tape \<Rightarrow> nat \<Rightarrow> nat \<Rightarrow> int list
     \<Rightarrow> panic + real \<times> real list list \<times> nat \<times> nat" where
  "Train_sample d fwd sm rnd rni p q tokens =
     (if NumTimesteps (Config d) = 0 then Inl InvalidArgument
      else
        let t = rni q mod NumTimesteps (Config d);
            (noisyTokens, p') = AddNoise d rnd p tokens t;
            input = [map real_of_int noisyTokens];
            outp = fwd input
        in case for_each (dense_loss sm outp tokens) [0 ..< MaxLength (Config d)] 0 of
             Inl e \<Rightarrow> Inl e
           | Inr loss \<Rightarrow>
               (case for_each (dense_error_row sm outp tokens) [0 ..< MaxLength (Config d)] [] of
                  Inl e \<Rightarrow> Inl e
                | Inr errorTerms \<Rightarrow>
                    Inr (loss / real (MaxLength (Config d)), errorTerms, p', Suc q)))"

subsection \<open>The masked-loss trainers: masked positions only\<close>

text \<open>The part common to the position loops of the worker of \<^verbatim>\<open>trainMaskedDiffusion\<close> and
  of \<^verbatim>\<open>TrainBetterDiffusion\<close>, at a position that holds \<^verbatim>\<open>[MASK]\<close>: \<open>preds\<close> are the
  logits of the sample, \<open>V\<close> the size of the vocabulary, \<open>targets\<close> the clean
  sequence.\<close>

definition masked_loss ::
  "(real list \<Rightarrow> real list) \<Rightarrow> nat \<Rightarrow> real list \<Rightarrow> int list \<Rightarrow> nat \<Rightarrow> real \<times> real list
     \<Rightarrow> panic + real \<times> real list" where
  "masked_loss sm V preds targets k st =
     (case st of (loss, terms) \<Rightarrow>
        (case slice preds (k * V) (k * V + V) of
           Inl e \<Rightarrow> Inl e
         | Inr logits \<Rightarrow>
             let probs = sm logits in
             if \<not> k < length targets then Inl IndexOutOfRange
             else (case add_loss probs (targets ! k) loss of
                     Inl e \<Rightarrow> Inl e
                   | Inr loss \<Rightarrow>
                       (case for_each (write_delta probs (targets ! k) (k * V)) [0 ..< V] terms of
                          Inl e \<Rightarrow> Inl e
                        | Inr terms \<Rightarrow> Inr (loss, terms)))))"

text \<open>A round of the position loop of the worker: a position that does not hold
  \<^verbatim>\<open>[MASK]\<close> gets zero error terms and adds nothing to the loss.\<close>

definition worker_position ::
  "(real list \<Rightarrow> real list) \<Rightarrow> nat \<Rightarrow> int \<Rightarrow> int list \<Rightarrow> int list \<Rightarrow> real list list \<Rightarrow> nat
     \<Rightarrow> real \<times> real list \<Rightarrow> panic + real \<times> real list" where
  "worker_position sm V maskID noisy targets outp k st =
     (if \<not> k < length noisy then Inl IndexOutOfRange
      else if noisy ! k = maskID
      then (case outp of
              [] \<Rightarrow> Inl IndexOutOfRange
            | preds # _ \<Rightarrow> masked_loss sm V preds targets k st)
      else (case for_each (write_zero (k * V)) [0 ..< V] (snd st) of
              Inl e \<Rightarrow> Inl e
            | Inr terms \<Rightarrow> Inr (fst st, terms)))"

text \<open>The third loop of the worker for sample \<open>j\<close> of its batch: the loss runs on from
  sample to sample, the error terms start from zero for each sample.\<close>

definition worker_sample ::
  "(real list \<Rightarrow> real list) \<Rightarrow> nat \<Rightarrow> nat \<Rightarrow> int \<Rightarrow> int list \<Rightarrow> int list \<Rightarrow> real list list
     \<Rightarrow> real \<Rightarrow> panic + real \<times> real list" where
  "worker_sample sm L V maskID noisy targets outp loss =
     for_each (worker_position sm V maskID noisy targets outp) [0 ..< L] (loss, replicate (L * V) 0)"

text \<open>The first loop of the worker for one sample: the noise level is drawn, the sample
  noised by the model, and the input row of \<open>L\<close> entries filled.\<close>

definition worker_noise ::
  "DiffusionModel \<Rightarrow> nat \<Rightarrow> float_tape \<Rightarrow> nat \<Rightarrow> int list
     \<Rightarrow> panic + int list \<times> real list \<times> nat" where
  "worker_noise model L rnd p tokens =
     (let tVal = rnd p;
          (noisyTokens, p') = AddNoiseMasked model rnd (Suc p) tokens tVal
      in if length noisyTokens > L then Inl IndexOutOfRange
         else Inr (noisyTokens,
                   map real_of_int noisyTokens @ replicate (L - length noisyTokens) 0, p'))"

text \<open>The worker of \<^verbatim>\<open>trainMaskedDiffusion\<close> on its batch: the samples are noised, each
  input goes through the network, and the loss and the error terms are computed sample
  by sample. \<open>tokenizer\<close> is the tokenizer handed to \<^verbatim>\<open>trainMaskedDiffusion\<close>, \<open>L\<close>
  the \<^verbatim>\<open>MaxLength\<close> of its \<^verbatim>\<open>dConfig\<close> and \<open>V\<close> the \<^verbatim>\<open>VocabSize\<close> of its
  \<^verbatim>\<open>tConfig\<close>. The result is what the worker sends: the loss over the size of the
  batch, and the rows of error terms; and the tape position.\<close>

definition noise_round ::
  "DiffusionModel \<Rightarrow> nat \<Rightarrow> float_tape \<Rightarrow> int list \<Rightarrow> int list list \<times> real list list \<times> nat
     \<Rightarrow> panic + int list list \<times> real list list \<times> nat" where
  "noise_round model L rnd tokens st =
     (case st of (noisyBatch, batchInputs, p) \<Rightarrow>
        (case worker_noise model L rnd p tokens of
           Inl e \<Rightarrow> Inl e
         | Inr (noisyTokens, input, p') \<Rightarrow>
             Inr (noisyBatch @ [noisyTokens], batchInputs @ [input], p')))"

definition loss_round ::
  "(real list \<Rightarrow> real list) \<Rightarrow> nat \<Rightarrow> nat \<Rightarrow> int \<Rightarrow> int list list \<Rightarrow> int list list
     \<Rightarrow> real list list list \<Rightarrow> nat \<Rightarrow> real \<times> real list list \<Rightarrow> panic + real \<times> real list list" where
  "loss_round sm L V maskID noisyBatch batchTargets batchOutputs j st =
     (case st of (loss, batchErrorTerms) \<Rightarrow>
        (case worker_sample sm L V maskID (noisyBatch ! j) (batchTargets ! j) (batchOutputs ! j) loss of
           Inl e \<Rightarrow> Inl e
         | Inr (loss, terms) \<Rightarrow> Inr (loss, batchErrorTerms @ [terms])))"

definition worker ::
  "DiffusionModel \<Rightarrow> CustomTokenizer \<Rightarrow> nat \<Rightarrow> nat \<Rightarrow> (real list list \<Rightarrow> real list list)
     \<Rightarrow> (real list \<Rightarrow> real list) \<Rightarrow> float_tape \<Rightarrow> nat \<Rightarrow> int list list
     \<Rightarrow> panic + real \<times> real list list \<times> nat" where
  "worker model tokenizer L V fwd sm rnd p batch =
     (case for_each (noise_round model L rnd) batch ([], [], p) of
        Inl e \<Rightarrow> Inl e
      | Inr (noisyBatch, batchInputs, p') \<Rightarrow>
          let batchOutputs = map (\<lambda>input. fwd [input]) batchInputs
          in case for_each (loss_round sm L V (vocab_id tokenizer ''[MASK]'') noisyBatch batch
                              batchOutputs)
                    [0 ..< length batch] (0, []) of
               Inl e \<Rightarrow> Inl e
             | Inr (loss, batchErrorTerms) \<Rightarrow>
                 Inr (loss / real (length batch), batchErrorTerms, p'))"

text \<open>A round of the position loop of \<^verbatim>\<open>TrainBetterDiffusion\<close>: a position that does not
  hold \<^verbatim>\<open>[MASK]\<close> is skipped.\<close>

definition better_loss_position ::
  "(real list \<Rightarrow> real list) \<Rightarrow> nat \<Rightarrow> int \<Rightarrow> int list \<Rightarrow> int list \<Rightarrow> real list \<Rightarrow> nat
     \<Rightarrow> real \<times> real list \<Rightarrow> panic + real \<times> real list" where
  "better_loss_position sm V maskID xt x0 preds i st =
     (if xt ! i = maskID then masked_loss sm V preds x0 i st else Inr st)"

text \<open>The body of the sample loop of \<^verbatim>\<open>TrainBetterDiffusion\<close> up to the call of
  \<^verbatim>\<open>Backward\<close>: the loss of the sample, its error terms before they are reshaped, and
  the tape position.\<close>

definition TrainBetter_sample ::
  "DiffusionModel \<Rightarrow> (real list list \<Rightarrow> real list list) \<Rightarrow> (real list \<Rightarrow> real list)
     \<Rightarrow> int_tape \<Rightarrow> nat \<Rightarrow> int list \<Rightarrow> panic + real \<times> real list \<times> nat" where
  "TrainBetter_sample d fwd sm rni q x0 =
     (if NumTimesteps (Config d) = 0 then Inl InvalidArgument
      else
        case BetterAddNoise d rni (Suc q) x0 (rni q mod NumTimesteps (Config d)) of
          Inl e \<Rightarrow> Inl e
        | Inr (xt, q') \<Rightarrow>
            if length xt > MaxLength (Config d) then Inl IndexOutOfRange
            else
              let V = VocabSize (Tokenizer d);
                  batchInput = map (one_hot_row V) xt @ replicate (MaxLength (Config d) - length xt) []
              in case fwd batchInput of
                   [] \<Rightarrow> Inl IndexOutOfRange
                 | preds # _ \<Rightarrow>
                     (case for_each (better_loss_position sm V (maskTokenID d) xt x0 preds)
                             [0 ..< length xt] (0, replicate (MaxLength (Config d) * V) 0) of
                        Inl e \<Rightarrow> Inl e
                      | Inr (loss, errorTerms) \<Rightarrow> Inr (loss, errorTerms, q')))"

text \<open>The error terms of position \<open>k\<close> in a flat row of error terms are all zero.\<close>

definition zero_row :: "nat \<Rightarrow> nat \<Rightarrow> real list \<Rightarrow> bool" where
  "zero_row V k terms = (\<forall>m < V. terms ! (k * V + m) = 0)"

section \<open>Aggregation in the concurrent trainer\<close>

text \<open>The constant \<^verbatim>\<open>batchSize\<close> of \<^verbatim>\<open>trainMaskedDiffusion\<close> and its number of batches.\<close>

definition batchSize :: nat where
  "batchSize = 10"

definition numBatches :: "nat \<Rightarrow> nat" where
  "numBatches n = (n + batchSize - 1) div batchSize"

text \<open>The dispatch loop \<^verbatim>\<open>for i := 0; i < len(sentences); i += batchSize\<close>: round \<open>b\<close> has
  \<open>i = b * batchSize\<close>, hands \<^verbatim>\<open>data[i:end]\<close> to a worker and tags it with
  \<^verbatim>\<open>batchIdx = i / batchSize\<close>.\<close>

definition dispatch :: "'a list \<Rightarrow> (nat \<times> 'a list) list" where
  "dispatch data =
     map (\<lambda>b. ((b * batchSize) div batchSize, take batchSize (drop (b * batchSize) data)))
       [0 ..< numBatches (length data)]"

text \<open>What a worker sends on \<^verbatim>\<open>errorTermsChan\<close>: its rows and its batch index.\<close>

type_synonym batch_terms = "real list list \<times> nat"

text \<open>The loop that drains \<^verbatim>\<open>errorTermsChan\<close>, in the order of arrival \<open>ets\<close>.\<close>

definition place_row :: "nat \<Rightarrow> real list list \<Rightarrow> nat \<Rightarrow> real list list \<Rightarrow> real list list" where
  "place_row start terms j acc =
     (if start + j < length acc then acc[start + j := terms ! j] else acc)"

definition place_batch :: "batch_terms \<Rightarrow> real list list \<Rightarrow> real list list" where
  "place_batch et acc =
     (case et of (terms, batchIdx) \<Rightarrow>
        let start = batchIdx * batchSize
        in fold (place_row start terms) [0 ..< length terms] acc)"

definition aggregate :: "batch_terms list \<Rightarrow> real list list \<Rightarrow> real list list" where
  "aggregate ets acc = fold place_batch ets acc"

text \<open>The calls an epoch makes into the sequence model's update.\<close>

datatype net_call = Backward "real list list" real

text \<open>The end of an epoch of \<^verbatim>\<open>trainMaskedDiffusion\<close>, once every worker is done: the
  losses are summed in their order of arrival, the rows are placed into the zeroed
  accumulator of \<open>n\<close> rows of \<open>width\<close> entries, and the accumulator goes to
  \<^verbatim>\<open>Backward\<close>. The result is the list of update calls and the epoch's loss.\<close>

definition finish_epoch ::
  "nat \<Rightarrow> nat \<Rightarrow> real list \<Rightarrow> batch_terms list \<Rightarrow> real \<Rightarrow> net_call list \<times> real" where
  "finish_epoch n width losses ets lr =
     (let totalLoss = fold (\<lambda>l total. total + l) losses 0;
          accumulatedErrorTerms = aggregate ets (replicate n (replicate width 0))
      in ([Backward accumulatedErrorTerms lr], totalLoss / real (numBatches n)))"

section \<open>Notions used in the statements\<close>

text \<open>The clamp to \<open>[0, 1]\<close> of the schedule.\<close>

definition clamp01 :: "real \<Rightarrow> real" where
  "clamp01 x = max 0 (min 1 x)"

text \<open>What the second loop of \<^verbatim>\<open>NewCustomTokenizer\<close> keeps true of the tokenizer and the
  next free id.\<close>

definition tok_inv :: "CustomTokenizer \<times> int \<Rightarrow> bool" where
  "tok_inv st = (case st of (t, n) \<Rightarrow>
     4 \<le> n
     \<and> (\<forall>w i. Vocab t w = Some i \<longrightarrow> ReverseVocab t i = Some w \<and> i < n)
     \<and> (\<forall>w i. Vocab t w = Some i \<longrightarrow> i < 4 \<longrightarrow> w \<in> set specials)
     \<and> (\<forall>i. is_special t i \<longrightarrow> i < 4))"

section \<open>Example inputs\<close>

text \<open>A three-step schedule rising from 0.2 to 0.8.\<close>

definition schedule_example :: DiffusionConfig where
  "schedule_example =
     \<lparr>NumTimesteps = 3, MaxLength = 4, LearningRate = 1 / 100, Epochs = 1,
      Temperature = 1, TopK = 2, MaskScheduleStart = 1 / 5, MaskScheduleEnd = 4 / 5\<rparr>"

text \<open>A one-sentence corpus.\<close>

definition corpus_example :: "string list" where
  "corpus_example = [''The  cat'']"

text \<open>A two-step schedule that masks half of the non-pad tokens at every step.\<close>

definition half_example :: DiffusionConfig where
  "half_example =
     \<lparr>NumTimesteps = 2, MaxLength = 4, LearningRate = 1 / 100, Epochs = 1,
      Temperature = 1, TopK = 2, MaskScheduleStart = 1 / 2, MaskScheduleEnd = 1 / 2\<rparr>"

text \<open>A model over the empty corpus (a vocabulary of the four special tokens) with one
  position and two steps; a network that returns four zero logits; and two functions in
  the place of \<^verbatim>\<open>Softmax\<close> that return fixed probabilities: most of the mass on token 3,
  and all of the mass on \<^verbatim>\<open>[MASK]\<close>, which \<^verbatim>\<open>float64\<close> arithmetic returns when the
  other exponentials underflow to 0.\<close>

definition gen_config :: "int \<Rightarrow> real \<Rightarrow> DiffusionConfig" where
  "gen_config k temp =
     \<lparr>NumTimesteps = 2, MaxLength = 1, LearningRate = 1 / 100, Epochs = 1,
      Temperature = temp, TopK = k, MaskScheduleStart = 0, MaskScheduleEnd = 1\<rparr>"

definition gen_example :: "int \<Rightarrow> real \<Rightarrow> DiffusionModel" where
  "gen_example k temp = NewDiffusionModel (gen_config k temp) []"

definition flat_fwd :: "real list list \<Rightarrow> real list list" where
  "flat_fwd input = [[0, 0, 0, 0]]"

definition peaked_sm :: "real list \<Rightarrow> real list" where
  "peaked_sm logits = [1 / 10, 1 / 10, 1 / 10, 7 / 10]"

definition underflow_sm :: "real list \<Rightarrow> real list" where
  "underflow_sm logits = [0, 1, 0, 0]"

text \<open>A tape on which every draw is \<open>r\<close>.\<close>

definition const_tape :: "real \<Rightarrow> float_tape" where
  "const_tape r p = r"

text \<open>A tape on which every integer draw is 0.\<close>

definition zero_draws :: int_tape where
  "zero_draws q = 0"

text \<open>A corpus of twelve samples, which makes two batches, and a worker that sends one
  row per sample.\<close>

definition corpus12 :: "nat list" where
  "corpus12 = [0, 1, 2, 3, 4, 5, 6, 7, 8, 9, 10, 11]"

definition row_worker :: "nat \<Rightarrow> nat list \<Rightarrow> real list list" where
  "row_worker b batch = map (\<lambda>x. [real x, real b]) batch"

section \<open>The mask-fraction table\<close>

lemma schedule_frac_clamp:
  "schedule_frac config t =
     clamp01 (MaskScheduleStart config
              + (MaskScheduleEnd config - MaskScheduleStart config) * real t
                / (real (NumTimesteps config) - 1))"
  by (simp add: schedule_frac_def clamp01_def Let_def max_def min_def)

lemma fold_table_fields:
  "Config (fold (\<lambda>t d. d\<lparr>MaskFraction := (MaskFraction d)[t := f t]\<rparr>) ts d) = Config d
   \<and> Tokenizer (fold (\<lambda>t d. d\<lparr>MaskFraction := (MaskFraction d)[t := f t]\<rparr>) ts d) = Tokenizer d"
  by (induction ts arbitrary: d) auto

lemma fold_table_length:
  "length (MaskFraction (fold (\<lambda>t d. d\<lparr>MaskFraction := (MaskFraction d)[t := f t]\<rparr>) ts d))
     = length (MaskFraction d)"
  by (induction ts arbitrary: d) auto

lemma fold_table_nth:
  "distinct ts \<Longrightarrow> i < length (MaskFraction d) \<Longrightarrow>
   MaskFraction (fold (\<lambda>t d. d\<lparr>MaskFraction := (MaskFraction d)[t := f t]\<rparr>) ts d) ! i
     = (if i \<in> set ts then f i else MaskFraction d ! i)"
proof (induction ts arbitrary: d)
  case Nil
  then show ?case by simp
next
  case (Cons t ts)
  then show ?case by (auto simp: nth_list_update)
qed

lemma NewDiffusionModel_length:
  "length (MaskFraction (NewDiffusionModel config sentences)) = NumTimesteps config"
  by (simp add: NewDiffusionModel_def Let_def fold_table_length)

lemma NewDiffusionModel_nth:
  "t < NumTimesteps config \<Longrightarrow>
   MaskFraction (NewDiffusionModel config sentences) ! t = schedule_frac config t"
  by (simp add: NewDiffusionModel_def Let_def fold_table_nth)

lemma constructed_fraction_le_1:
  "t < NumTimesteps config \<Longrightarrow> MaskFraction (NewDiffusionModel config sentences) ! t \<le> 1"
  by (simp add: NewDiffusionModel_nth schedule_frac_clamp clamp01_def)

text \<open>
  Claim C7. With at least two steps, entry \<open>t\<close> of the table built by the constructor is
  the linear schedule \<open>start + (end - start) * t / (T - 1)\<close> clamped to \<open>[0, 1]\<close>, so
  every entry lies between 0 and 1; and when \<open>end \<ge> start\<close> the table does not decrease
  from one step to a later one.
\<close>

theorem C7_mask_fraction_table:
  assumes "2 \<le> NumTimesteps config" and "t < NumTimesteps config"
  shows "MaskFraction (NewDiffusionModel config sentences) ! t
           = clamp01 (MaskScheduleStart config
                      + (MaskScheduleEnd config - MaskScheduleStart config) * real t
                        / (real (NumTimesteps config) - 1))
         \<and> 0 \<le> MaskFraction (NewDiffusionModel config sentences) ! t
         \<and> MaskFraction (NewDiffusionModel config sentences) ! t \<le> 1
         \<and> (MaskScheduleStart config \<le> MaskScheduleEnd config \<longrightarrow>
              (\<forall>s \<le> t. MaskFraction (NewDiffusionModel config sentences) ! s
                         \<le> MaskFraction (NewDiffusionModel config sentences) ! t))"
proof -
  let ?d = "NewDiffusionModel config sentences"
  have eq: "MaskFraction ?d ! t
           = clamp01 (MaskScheduleStart config
                      + (MaskScheduleEnd config - MaskScheduleStart config) * real t
                        / (real (NumTimesteps config) - 1))"
    using assms(2) by (simp add: NewDiffusionModel_nth schedule_frac_clamp)
  have lo: "0 \<le> MaskFraction ?d ! t" by (simp add: eq clamp01_def)
  have hi: "MaskFraction ?d ! t \<le> 1" by (simp add: eq clamp01_def)
  have mono: "MaskFraction ?d ! s \<le> MaskFraction ?d ! t"
    if le: "MaskScheduleStart config \<le> MaskScheduleEnd config" and st: "s \<le> t" for s
  proof -
    have pos: "0 < real (NumTimesteps config) - 1" using assms(1) by simp
    have "(MaskScheduleEnd config - MaskScheduleStart config) * real s
            \<le> (MaskScheduleEnd config - MaskScheduleStart config) * real t"
      using le st by (simp add: mult_left_mono)
    then have "(MaskScheduleEnd config - MaskScheduleStart config) * real s
                 / (real (NumTimesteps config) - 1)
            \<le> (MaskScheduleEnd config - MaskScheduleStart config) * real t
                 / (real (NumTimesteps config) - 1)"
      using pos by (simp add: divide_right_mono)
    then show ?thesis
      using st assms(2)
      by (simp add: NewDiffusionModel_nth schedule_frac_clamp clamp01_def max_def min_def)
  qed
  from eq lo hi mono show ?thesis by blast
qed

theorem C7_mask_fraction_table_witness:
  "MaskFraction (NewDiffusionModel schedule_example []) ! 1 = 1 / 2
   \<and> MaskFraction (NewDiffusionModel schedule_example []) ! 0
       \<le> MaskFraction (NewDiffusionModel schedule_example []) ! 1"
proof -
  have h: "2 \<le> NumTimesteps schedule_example" "1 < NumTimesteps schedule_example"
    "MaskScheduleStart schedule_example \<le> MaskScheduleEnd schedule_example"
    by (simp_all add: schedule_example_def)
  from C7_mask_fraction_table [OF h(1) h(2), of "[]"] h(3)
  show ?thesis by (simp add: schedule_example_def clamp01_def)
qed


section \<open>Tokenizer round trip\<close>

lemma fields_from_nospace:
  "\<forall>c \<in> set w. \<not> isSpace c \<Longrightarrow> fields_from cur (w @ rest) = fields_from (cur @ w) rest"
  by (induction w arbitrary: cur) auto

lemma isSpace_space: "isSpace CHR '' ''"
  by (simp add: isSpace_def)

lemma Fields_Join:
  "\<forall>w \<in> set ws. w \<noteq> [] \<and> (\<forall>c \<in> set w. \<not> isSpace c) \<Longrightarrow> Fields (Join ws '' '') = ws"
proof (induction ws "'' ''" rule: Join.induct)
  case 1
  then show ?case by (simp add: Fields_def)
next
  case (2 w)
  then have "fields_from [] (w @ []) = fields_from ([] @ w) []"
    by (intro fields_from_nospace) simp
  with 2 show ?case by (simp add: Fields_def)
next
  case (3 w v ws)
  have nospace: "\<forall>c \<in> set w. \<not> isSpace c" and ne: "w \<noteq> []" using 3(2) by auto
  have "fields_from [] (w @ ('' '' @ Join (v # ws) '' '')) = fields_from ([] @ w) ('' '' @ Join (v # ws) '' '')"
    using nospace by (rule fields_from_nospace)
  also have "\<dots> = w # fields_from [] (Join (v # ws) '' '')"
    using ne by (simp add: isSpace_space)
  also have "\<dots> = w # v # ws"
    using 3 by (simp add: Fields_def)
  finally show ?case by (simp add: Fields_def)
qed

lemma ToLower_Join:
  "\<forall>w \<in> set ws. ToLower w = w \<Longrightarrow> ToLower (Join ws '' '') = Join ws '' ''"
  by (induction ws "'' ''" rule: Join.induct) (auto simp: ToLower_def lower_char_def)

lemma tok_inv_add_word:
  assumes "tok_inv st" shows "tok_inv (add_word w st)"
proof (cases st)
  case (Pair t n)
  show ?thesis
  proof (cases "Vocab t w")
    case None
    with Pair assms show ?thesis
      unfolding tok_inv_def add_word_def is_special_def
      by (auto split: option.splits) force+
  next
    case (Some a)
    with Pair assms show ?thesis by (simp add: add_word_def)
  qed
qed

lemma tok_inv_add_sentence: "tok_inv st \<Longrightarrow> tok_inv (add_sentence s st)"
  unfolding add_sentence_def
  by (induction "Fields (ToLower s)" arbitrary: st) (auto simp: tok_inv_add_word fold_invariant)

lemma lower_specials: "w \<in> set specials \<Longrightarrow> ToLower w \<noteq> w"
  by (auto simp: specials_def ToLower_def lower_char_def)

lemma tok_inv_specials:
  "tok_inv (fold (\<lambda>i t. add_special t i) [0 ..< length specials] empty_tokenizer, 4)"
  by (auto simp: specials_def upt_rec tok_inv_def add_special_def empty_tokenizer_def is_special_def split: if_splits)

lemma tok_inv_fold_sentences: "tok_inv st \<Longrightarrow> tok_inv (fold add_sentence ss st)"
  by (induction ss arbitrary: st) (auto simp: tok_inv_add_sentence)

lemma NewCustomTokenizer_inv:
  "\<exists>n. tok_inv (NewCustomTokenizer sentences\<lparr>VocabSize := 0\<rparr>, n)"
proof -
  obtain t n where tn: "fold add_sentence sentences
      (fold (\<lambda>i t. add_special t i) [0 ..< length specials] empty_tokenizer, 4) = (t, n)"
    by (cases "fold add_sentence sentences
      (fold (\<lambda>i t. add_special t i) [0 ..< length specials] empty_tokenizer, 4)")
  have "tok_inv (t, n)"
    using tok_inv_fold_sentences [OF tok_inv_specials, of sentences] tn by simp
  then have "tok_inv (t\<lparr>VocabSize := 0\<rparr>, n)"
    by (simp add: tok_inv_def is_special_def)
  moreover have "NewCustomTokenizer sentences\<lparr>VocabSize := 0\<rparr> = t\<lparr>VocabSize := 0\<rparr>"
    using tn by (simp add: NewCustomTokenizer_def Let_def specials_def)
  ultimately show ?thesis by auto
qed

lemma decode_known_word:
  assumes "Vocab (NewCustomTokenizer sentences) w = Some i" and "ToLower w = w"
  shows "decode_word (NewCustomTokenizer sentences) i = [w]"
proof -
  let ?t = "NewCustomTokenizer sentences"
  obtain n where "tok_inv (?t\<lparr>VocabSize := 0\<rparr>, n)"
    using NewCustomTokenizer_inv by blast
  then have inv: "\<forall>w i. Vocab ?t w = Some i \<longrightarrow> ReverseVocab ?t i = Some w"
     "\<forall>w i. Vocab ?t w = Some i \<longrightarrow> i < 4 \<longrightarrow> w \<in> set specials"
     "\<forall>i. is_special ?t i \<longrightarrow> i < 4"
    by (auto simp: tok_inv_def is_special_def)
  have "w \<notin> set specials" using assms(2) lower_specials by blast
  with inv(2) assms(1) have "\<not> i < 4" by blast
  with inv(3) have "\<not> is_special ?t i" by blast
  moreover have "ReverseVocab ?t i = Some w" using inv(1) assms(1) by blast
  ultimately show ?thesis by (simp add: decode_word_def)
qed

text \<open>
  Claim C9. For a tokenizer built by \<^verbatim>\<open>NewCustomTokenizer\<close> and a text made of words
  that are non-empty, free of white space, already lower case and in the vocabulary,
  joined by single spaces, decoding the encoded text gives the text back.
\<close>

theorem C9_decode_encode:
  assumes "\<forall>w \<in> set ws. w \<noteq> [] \<and> (\<forall>c \<in> set w. \<not> isSpace c) \<and> ToLower w = w
             \<and> w \<in> dom (Vocab (NewCustomTokenizer sentences))"
  shows "Decode (NewCustomTokenizer sentences)
           (Encode (NewCustomTokenizer sentences) (Join ws '' '')) = Join ws '' ''"
proof -
  let ?t = "NewCustomTokenizer sentences"
  have low: "ToLower (Join ws '' '') = Join ws '' ''"
    using assms by (intro ToLower_Join) simp
  have fields: "Fields (Join ws '' '') = ws"
    using assms by (intro Fields_Join) simp
  have "concat (map (decode_word ?t)
          (map (\<lambda>w. case Vocab ?t w of Some i \<Rightarrow> i | None \<Rightarrow> vocab_id ?t ''[PAD]'') vs)) = vs"
    if "set vs \<subseteq> set ws" for vs
    using that
  proof (induction vs)
    case Nil
    then show ?case by simp
  next
    case (Cons v vs)
    then have v: "v \<in> set ws" by simp
    then obtain i where i: "Vocab ?t v = Some i" using assms by blast
    have "ToLower v = v" using v assms by blast
    with i have "decode_word ?t i = [v]" by (rule decode_known_word)
    with Cons i show ?case by simp
  qed
  then show ?thesis
    by (simp add: Decode_def Encode_def low fields)
qed

lemma corpus_example_fields: "Fields (ToLower ''The  cat'') = [''the'', ''cat'']"
  by (simp add: Fields_def ToLower_def lower_char_def isSpace_def)

lemma corpus_example_vocab:
  "Vocab (NewCustomTokenizer corpus_example)
     = [''[PAD]'' \<mapsto> 0, ''[MASK]'' \<mapsto> 1, ''[CLS]'' \<mapsto> 2, ''[SEP]'' \<mapsto> 3,
        ''the'' \<mapsto> 4, ''cat'' \<mapsto> 5]"
  by (simp add: NewCustomTokenizer_def corpus_example_def corpus_example_fields add_sentence_def
      add_word_def add_special_def specials_def empty_tokenizer_def upt_rec)

theorem C9_decode_encode_witness:
  "Decode (NewCustomTokenizer corpus_example)
     (Encode (NewCustomTokenizer corpus_example) ''cat the'') = ''cat the''"
proof -
  have h: "\<forall>w \<in> set [''cat'', ''the''].
             w \<noteq> [] \<and> (\<forall>c \<in> set w. \<not> isSpace c) \<and> ToLower w = w
             \<and> w \<in> dom (Vocab (NewCustomTokenizer corpus_example))"
    by (simp add: corpus_example_vocab isSpace_def ToLower_def lower_char_def)
  from C9_decode_encode [OF h] show ?thesis by simp
qed


section \<open>Fraction-exact masking\<close>

lemma for_each_append:
  "for_each body (xs @ ys) s =
     (case for_each body xs s of Inl e \<Rightarrow> Inl e | Inr s' \<Rightarrow> for_each body ys s')"
  by (induction xs arbitrary: s) (auto split: sum.splits)

lemma swap_entries_mset:
  "i < length xs \<Longrightarrow> j < length xs \<Longrightarrow> mset (swap_entries i j xs) = mset xs"
  unfolding swap_entries_def by (rule mset_swap)

lemma shuffle_loop_mset:
  "i < length xs \<Longrightarrow> mset (fst (shuffle_loop rni i q xs)) = mset xs"
proof (induction i arbitrary: q xs)
  case 0
  then show ?case by simp
next
  case (Suc i)
  have j: "rni q mod (Suc i + 1) < length xs"
  proof -
    have "rni q mod (Suc i + 1) < Suc i + 1" by simp
    with Suc.prems show ?thesis by linarith
  qed
  have m: "mset (swap_entries (Suc i) (rni q mod (Suc i + 1)) xs) = mset xs"
    using Suc.prems j by (simp add: swap_entries_mset)
  have "i < length (swap_entries (Suc i) (rni q mod (Suc i + 1)) xs)"
    using Suc.prems by (simp add: swap_entries_def)
  from Suc.IH [OF this] m show ?case by simp
qed

lemma Shuffle_mset: "mset (fst (Shuffle rni q xs)) = mset xs"
proof (cases xs)
  case Nil
  then show ?thesis by (simp add: Shuffle_def)
next
  case (Cons a list)
  then show ?thesis unfolding Shuffle_def by (intro shuffle_loop_mset) simp
qed

lemma mask_first_k:
  assumes "k \<le> length idxes" and "\<forall>i \<in> set idxes. i < length noisy"
  shows "\<exists>r. for_each (mask_index idxes m) [0 ..< k] noisy = Inr r \<and> length r = length noisy
           \<and> (\<forall>i < length noisy. r ! i = (if i \<in> set (take k idxes) then m else noisy ! i))"
  using assms(1)
proof (induction k)
  case 0
  then show ?case by simp
next
  case (Suc k)
  then obtain r where r: "for_each (mask_index idxes m) [0 ..< k] noisy = Inr r"
      "length r = length noisy"
      "\<forall>i < length noisy. r ! i = (if i \<in> set (take k idxes) then m else noisy ! i)"
    by auto
  have k: "k < length idxes" "idxes ! k < length r"
    using Suc.prems assms(2) r(2) by auto
  have step: "for_each (mask_index idxes m) [0 ..< Suc k] noisy = Inr (r[idxes ! k := m])"
    using r(1) k by (simp add: for_each_append mask_index_def)
  have tk: "set (take (Suc k) idxes) = insert (idxes ! k) (set (take k idxes))"
    using k(1) by (simp add: take_Suc_conv_app_nth)
  have "r[idxes ! k := m] ! i = (if i \<in> set (take (Suc k) idxes) then m else noisy ! i)"
    if "i < length noisy" for i
    using that r(2,3) tk by (cases "i = idxes ! k") simp_all
  with step r(2) show ?case by simp
qed

lemma Round_bounds:
  assumes "0 < f" "f \<le> 1"
  shows "0 \<le> Round (real n * f)" "Round (real n * f) \<le> int n"
proof -
  have nn: "0 \<le> real n * f" using assms by simp
  then show "0 \<le> Round (real n * f)" by (simp add: Round_def)
  have "real n * f \<le> real n" using assms by (simp add: mult_left_le)
  then have "real n * f + 1 / 2 < real n + 1" by simp
  then have "real n * f + 1 / 2 < of_int (int n) + 1" by simp
  then have "\<lfloor>real n * f + 1 / 2\<rfloor> \<le> int n"
    unfolding floor_le_iff .
  with nn show "Round (real n * f) \<le> int n" by (simp add: Round_def)
qed

lemma Round_nonpos: "x \<le> 0 \<Longrightarrow> nat (Round x) = 0"
  by (auto simp: Round_def)

lemma nonpad_indices:
  "distinct (filter (\<lambda>i. x0 ! i \<noteq> padID) [0 ..< length x0])"
  "set (filter (\<lambda>i. x0 ! i \<noteq> padID) [0 ..< length x0]) = {i. i < length x0 \<and> x0 ! i \<noteq> padID}"
  "length (filter (\<lambda>i. x0 ! i \<noteq> padID) [0 ..< length x0]) = card {i. i < length x0 \<and> x0 ! i \<noteq> padID}"
proof -
  show d: "distinct (filter (\<lambda>i. x0 ! i \<noteq> padID) [0 ..< length x0])" by simp
  show s: "set (filter (\<lambda>i. x0 ! i \<noteq> padID) [0 ..< length x0]) = {i. i < length x0 \<and> x0 ! i \<noteq> padID}"
    by auto
  show "length (filter (\<lambda>i. x0 ! i \<noteq> padID) [0 ..< length x0]) = card {i. i < length x0 \<and> x0 ! i \<noteq> padID}"
    using distinct_card [OF d] s by simp
qed

text \<open>
  Claim C1. Let \<open>t\<close> be a step of the table whose fraction \<open>f\<close> is at most 1 (as every
  entry built by the constructor is, \<open>constructed_fraction_le_1\<close>), and \<open>N\<close> the number of non-pad positions of
  \<open>x0\<close>. Whatever the shuffle draws, \<^verbatim>\<open>BetterAddNoise\<close> returns a sequence of the
  length of \<open>x0\<close> that holds \<^verbatim>\<open>[MASK]\<close> on a set \<open>S\<close> of exactly \<open>round (N * f)\<close>
  non-pad positions and equals \<open>x0\<close> everywhere else, pad positions included; with
  \<open>f \<le> 0\<close> the result is \<open>x0\<close>.
\<close>

theorem C1_better_add_noise:
  assumes "t < length (MaskFraction d)" and "MaskFraction d ! t \<le> 1"
  shows "\<exists>r q' S. BetterAddNoise d rni q x0 t = Inr (r, q')
           \<and> length r = length x0
           \<and> S \<subseteq> {i. i < length x0 \<and> x0 ! i \<noteq> padTokenID d}
           \<and> card S = nat (Round (real (card {i. i < length x0 \<and> x0 ! i \<noteq> padTokenID d})
                               * MaskFraction d ! t))
           \<and> (\<forall>i < length x0. r ! i = (if i \<in> S then maskTokenID d else x0 ! i))
           \<and> (MaskFraction d ! t \<le> 0 \<longrightarrow> r = x0)"
proof (cases "MaskFraction d ! t \<le> 0")
  case True
  then have "real (card {i. i < length x0 \<and> x0 ! i \<noteq> padTokenID d}) * MaskFraction d ! t \<le> 0"
    by (simp add: mult_nonneg_nonpos)
  then have "nat (Round (real (card {i. i < length x0 \<and> x0 ! i \<noteq> padTokenID d}) * MaskFraction d ! t)) = 0"
    by (rule Round_nonpos)
  then have k: "card ({} :: nat set) = nat (Round (real (card {i. i < length x0 \<and> x0 ! i \<noteq> padTokenID d}) * MaskFraction d ! t))"
    by simp
  have "BetterAddNoise d rni q x0 t = Inr (x0, q)"
    using True assms(1) by (simp add: BetterAddNoise_def)
  with k True show ?thesis by (intro exI [of _ x0] exI [of _ q] exI [of _ "{}"]) simp
next
  case False
  define f where "f = MaskFraction d ! t"
  define idx0 where "idx0 = filter (\<lambda>i. x0 ! i \<noteq> padTokenID d) [0 ..< length x0]"
  define idxes where "idxes = fst (Shuffle rni q idx0)"
  define q' where "q' = snd (Shuffle rni q idx0)"
  define k where "k = Round (real (length idxes) * f)"
  have f: "0 < f" "f \<le> 1" using False assms(2) by (simp_all add: f_def)
  have ms: "mset idxes = mset idx0" by (simp add: idxes_def Shuffle_mset)
  then have len: "length idxes = length idx0" by (rule mset_eq_length)
  have set_idxes: "set idxes = {i. i < length x0 \<and> x0 ! i \<noteq> padTokenID d}"
    using mset_eq_setD [OF ms] nonpad_indices(2) [of x0 "padTokenID d"] by (simp add: idx0_def)
  have dist: "distinct idxes"
    using ms nonpad_indices(1) [of x0 "padTokenID d"] by (metis idx0_def mset_eq_imp_distinct_iff)
  have N: "length idxes = card {i. i < length x0 \<and> x0 ! i \<noteq> padTokenID d}"
    using len nonpad_indices(3) [of x0 "padTokenID d"] by (simp add: idx0_def)
  have kb: "0 \<le> k" "k \<le> int (length idxes)"
    using Round_bounds [OF f] by (simp_all add: k_def)
  then have "nat k \<le> length idxes" by simp
  moreover have "\<forall>i \<in> set idxes. i < length x0" using set_idxes by simp
  ultimately obtain r where r: "for_each (mask_index idxes (maskTokenID d)) [0 ..< nat k] x0 = Inr r"
      "length r = length x0"
      "\<forall>i < length x0. r ! i = (if i \<in> set (take (nat k) idxes) then maskTokenID d else x0 ! i)"
    using mask_first_k by blast
  have run: "BetterAddNoise d rni q x0 t = Inr (r, q')"
    using False assms(1) r(1)
    by (simp add: BetterAddNoise_def Let_def f_def idx0_def idxes_def q'_def k_def split_beta)
  let ?S = "set (take (nat k) idxes)"
  have sub: "?S \<subseteq> {i. i < length x0 \<and> x0 ! i \<noteq> padTokenID d}"
    using set_idxes set_take_subset by fast
  have "card ?S = nat k"
    using dist \<open>nat k \<le> length idxes\<close> by (simp add: distinct_card)
  then have card: "card ?S = nat (Round (real (card {i. i < length x0 \<and> x0 ! i \<noteq> padTokenID d}) * MaskFraction d ! t))"
    by (simp add: k_def N f_def)
  from run r(2) sub card r(3) False show ?thesis by blast
qed

theorem C1_better_add_noise_witness:
  "\<exists>r q' S. BetterAddNoise (NewDiffusionModel half_example corpus_example) (\<lambda>_. 0) 0 [4, 5, 0, 0] 0
               = Inr (r, q')
     \<and> length r = length [4, 5, 0, 0 :: int]
     \<and> S \<subseteq> {i. i < length [4, 5, 0, 0 :: int]
                 \<and> [4, 5, 0, 0] ! i \<noteq> padTokenID (NewDiffusionModel half_example corpus_example)}
     \<and> card S = nat (Round (real (card {i. i < length [4, 5, 0, 0 :: int]
                 \<and> [4, 5, 0, 0] ! i \<noteq> padTokenID (NewDiffusionModel half_example corpus_example)})
               * MaskFraction (NewDiffusionModel half_example corpus_example) ! 0))
     \<and> (\<forall>i < length [4, 5, 0, 0 :: int].
           r ! i = (if i \<in> S then maskTokenID (NewDiffusionModel half_example corpus_example)
                    else [4, 5, 0, 0] ! i))
     \<and> (MaskFraction (NewDiffusionModel half_example corpus_example) ! 0 \<le> 0 \<longrightarrow> r = [4, 5, 0, 0])"
proof -
  have h1: "0 < length (MaskFraction (NewDiffusionModel half_example corpus_example))"
    by (simp add: NewDiffusionModel_length half_example_def)
  have h2: "MaskFraction (NewDiffusionModel half_example corpus_example) ! 0 \<le> 1"
    by (simp add: NewDiffusionModel_nth half_example_def schedule_frac_def)
  show ?thesis by (rule C1_better_add_noise [OF h1 h2])
qed


section \<open>Order of arrival in the concurrent trainer\<close>

lemma place_rows_nth:
  "length (fold (place_row start terms) [0 ..< n] acc) = length acc \<and>
   (\<forall>i < length acc. fold (place_row start terms) [0 ..< n] acc ! i
      = (if start \<le> i \<and> i < start + n then terms ! (i - start) else acc ! i))"
proof (induction n)
  case 0
  then show ?case by auto
next
  case (Suc n)
  then show ?case
    by (auto simp: place_row_def nth_list_update)
qed

lemma place_batch_length: "length (place_batch et acc) = length acc"
  by (cases et) (simp add: place_batch_def place_rows_nth)

lemma place_batch_nth:
  "i < length acc \<Longrightarrow>
   place_batch (terms, b) acc ! i
     = (if b * batchSize \<le> i \<and> i < b * batchSize + length terms
        then terms ! (i - b * batchSize) else acc ! i)"
  by (simp add: place_batch_def place_rows_nth)

lemma aggregate_length: "length (aggregate ets acc) = length acc"
  unfolding aggregate_def
  by (induction ets arbitrary: acc) (simp_all add: place_batch_length)

lemma aggregate_untouched:
  assumes "i < length acc"
    and "\<forall>(terms, b) \<in> set ets. \<not> (b * batchSize \<le> i \<and> i < b * batchSize + length terms)"
  shows "aggregate ets acc ! i = acc ! i"
  using assms unfolding aggregate_def
proof (induction ets arbitrary: acc)
  case Nil
  then show ?case by simp
next
  case (Cons et ets)
  obtain terms b where et: "et = (terms, b)" by (cases et)
  have "fold place_batch ets (place_batch et acc) ! i = place_batch et acc ! i"
    using Cons by (simp add: place_batch_length)
  also have "\<dots> = acc ! i"
    using Cons.prems et by (auto simp: place_batch_nth)
  finally show ?case by simp
qed

lemma aggregate_lands:
  assumes "distinct (map snd ets)"
    and "\<forall>(terms, b) \<in> set ets. length terms \<le> batchSize"
    and "(terms, b) \<in> set ets" and "j < length terms" and "b * batchSize + j < length acc"
  shows "aggregate ets acc ! (b * batchSize + j) = terms ! j"
  using assms
proof (induction ets arbitrary: acc)
  case Nil
  then show ?case by simp
next
  case (Cons et ets)
  show ?case
  proof (cases "et = (terms, b)")
    case True
    have other: "\<forall>(terms', b') \<in> set ets.
        \<not> (b' * batchSize \<le> b * batchSize + j \<and> b * batchSize + j < b' * batchSize + length terms')"
    proof (clarify)
      fix terms' b'
      assume in_ets: "(terms', b') \<in> set ets"
        and lo: "b' * batchSize \<le> b * batchSize + j"
        and hi: "b * batchSize + j < b' * batchSize + length terms'"
      have ne: "b' \<noteq> b" using Cons.prems(1) True in_ets by force
      have l': "length terms' \<le> batchSize" using Cons.prems(2) in_ets by auto
      have l: "j < batchSize" using Cons.prems(2,4) True by auto
      show False
      proof (cases "b' < b")
        case True
        then have "Suc b' \<le> b" by simp
        then have "Suc b' * batchSize \<le> b * batchSize" by (rule mult_le_mono1)
        with hi l' show False by simp
      next
        case False
        with ne have "Suc b \<le> b'" by simp
        then have "Suc b * batchSize \<le> b' * batchSize" by (rule mult_le_mono1)
        with lo l show False by simp
      qed
    qed
    have "aggregate (et # ets) acc ! (b * batchSize + j)
            = aggregate ets (place_batch et acc) ! (b * batchSize + j)"
      by (simp add: aggregate_def)
    also have "\<dots> = place_batch et acc ! (b * batchSize + j)"
      using other Cons.prems(5) by (intro aggregate_untouched) (simp_all add: place_batch_length)
    also have "\<dots> = terms ! j"
      using True Cons.prems(4,5) by (simp add: place_batch_nth)
    finally show ?thesis .
  next
    case False
    then have "(terms, b) \<in> set ets" using Cons.prems(3) by simp
    moreover have "b * batchSize + j < length (place_batch et acc)"
      using Cons.prems(5) by (simp add: place_batch_length)
    ultimately have "aggregate ets (place_batch et acc) ! (b * batchSize + j) = terms ! j"
      using Cons.prems(1,2,4) by (intro Cons.IH) simp_all
    then show ?thesis by (simp add: aggregate_def)
  qed
qed

lemma numBatches_covers: "i < n \<Longrightarrow> i div batchSize < numBatches n"
  unfolding numBatches_def batchSize_def by (simp add: div_less_iff_less_mult)

lemma dispatch_results:
  fixes data :: "'a list" and sent :: "nat \<Rightarrow> 'a list \<Rightarrow> real list list"
  assumes "\<forall>b batch. length (sent b batch) = length batch"
  defines "results \<equiv> map (\<lambda>(b, batch). (sent b batch, b)) (dispatch data)"
  shows "distinct (map snd results)"
    and "\<forall>(terms, b) \<in> set results. length terms \<le> batchSize"
    and "i < length data \<Longrightarrow>
           (sent (i div batchSize) (take batchSize (drop (i div batchSize * batchSize) data)),
            i div batchSize) \<in> set results"
    and "i < length data \<Longrightarrow>
           i mod batchSize
             < length (sent (i div batchSize) (take batchSize (drop (i div batchSize * batchSize) data)))"
proof -
  have bs: "0 < batchSize" by (simp add: batchSize_def)
  have "map snd results = [0 ..< numBatches (length data)]"
    using bs by (simp add: results_def dispatch_def comp_def map_idI)
  then show "distinct (map snd results)" by simp
  show "\<forall>(terms, b) \<in> set results. length terms \<le> batchSize"
    using assms(1) by (auto simp: results_def dispatch_def)
  show "(sent (i div batchSize) (take batchSize (drop (i div batchSize * batchSize) data)),
            i div batchSize) \<in> set results" if "i < length data"
  proof -
    have "i div batchSize \<in> set [0 ..< numBatches (length data)]"
      using that by (simp add: numBatches_covers)
    then show ?thesis
      using bs unfolding results_def dispatch_def by (simp add: image_iff comp_def) 
  qed
  show "i mod batchSize
             < length (sent (i div batchSize) (take batchSize (drop (i div batchSize * batchSize) data)))"
    if "i < length data"
  proof -
    have "i mod batchSize < batchSize" using bs by simp
    moreover have "i mod batchSize < length data - i div batchSize * batchSize"
    proof -
      have "i div batchSize * batchSize + i mod batchSize = i" by simp
      with that show ?thesis by linarith
    qed
    ultimately show ?thesis using assms(1) by simp
  qed
qed

lemma aggregate_dispatch_nth:
  fixes data :: "'a list" and sent :: "nat \<Rightarrow> 'a list \<Rightarrow> real list list"
  assumes w: "\<forall>b batch. length (sent b batch) = length batch"
    and ets: "mset ets = mset (map (\<lambda>(b, batch). (sent b batch, b)) (dispatch data))"
    and len: "length acc = length data" and i: "i < length data"
  shows "aggregate ets acc ! i
           = sent (i div batchSize) (take batchSize (drop (i div batchSize * batchSize) data))
               ! (i mod batchSize)"
proof -
  let ?results = "map (\<lambda>(b, batch). (sent b batch, b)) (dispatch data)"
  let ?terms = "sent (i div batchSize) (take batchSize (drop (i div batchSize * batchSize) data))"
  have "image_mset snd (mset ets) = image_mset snd (mset ?results)"
    using ets by (rule arg_cong)
  then have "mset (map snd ets) = mset (map snd ?results)"
    unfolding mset_map .
  from mset_eq_imp_distinct_iff [OF this] dispatch_results(1) [OF w, of data]
  have d: "distinct (map snd ets)" by (rule iffD2)
  have s: "set ets = set ?results" using ets by (rule mset_eq_setD)
  have l: "\<forall>(terms, b) \<in> set ets. length terms \<le> batchSize"
    using dispatch_results(2) [OF w, of data] s by simp
  have m: "(?terms, i div batchSize) \<in> set ets"
    using dispatch_results(3) [OF w i] s by simp
  have j: "i mod batchSize < length ?terms"
    using dispatch_results(4) [OF w i] .
  have "i div batchSize * batchSize + i mod batchSize < length acc"
    using i len by simp
  from aggregate_lands [OF d l m j this] show ?thesis by simp
qed

text \<open>
  Claim C2. Fix the corpus \<open>data\<close>, and let \<open>sent b batch\<close> be the rows the worker
  of batch \<open>b\<close> sent, one row per sample of its batch (\<open>worker_rows_length\<close>). For any two orders of arrival
  \<open>ets1\<close> and \<open>ets2\<close> of the complete set of results, the drained accumulator is
  the same; sample \<open>j\<close> of batch \<open>b\<close> stands at corpus index \<open>b * batchSize + j\<close>;
  and the epoch makes exactly one \<^verbatim>\<open>Backward\<close> call, on that accumulator.
\<close>

theorem C2_aggregation_order_independent:
  fixes data :: "'a list" and sent :: "nat \<Rightarrow> 'a list \<Rightarrow> real list list"
  assumes w: "\<forall>b batch. length (sent b batch) = length batch"
    and e1: "mset ets1 = mset (map (\<lambda>(b, batch). (sent b batch, b)) (dispatch data))"
    and e2: "mset ets2 = mset (map (\<lambda>(b, batch). (sent b batch, b)) (dispatch data))"
  shows "aggregate ets1 (replicate (length data) (replicate width 0))
           = aggregate ets2 (replicate (length data) (replicate width 0))
       \<and> (\<forall>i < length data.
             aggregate ets1 (replicate (length data) (replicate width 0)) ! i
               = sent (i div batchSize) (take batchSize (drop (i div batchSize * batchSize) data))
                   ! (i mod batchSize))
       \<and> fst (finish_epoch (length data) width losses1 ets1 lr)
           = [Backward (aggregate ets2 (replicate (length data) (replicate width 0))) lr]"
proof -
  let ?acc = "replicate (length data) (replicate width (0::real))"
  have nth: "aggregate ets ?acc ! i
           = sent (i div batchSize) (take batchSize (drop (i div batchSize * batchSize) data))
               ! (i mod batchSize)"
    if "mset ets = mset (map (\<lambda>(b, batch). (sent b batch, b)) (dispatch data))"
      and "i < length data" for ets i
    using w that(1) _ that(2) by (rule aggregate_dispatch_nth) simp
  have eq: "aggregate ets1 ?acc = aggregate ets2 ?acc"
  proof (rule nth_equalityI)
    show "length (aggregate ets1 ?acc) = length (aggregate ets2 ?acc)"
      by (simp add: aggregate_length)
    fix i assume "i < length (aggregate ets1 ?acc)"
    then have "i < length data" by (simp add: aggregate_length)
    then show "aggregate ets1 ?acc ! i = aggregate ets2 ?acc ! i"
      using nth [OF e1] nth [OF e2] by simp
  qed
  have call: "fst (finish_epoch (length data) width losses1 ets1 lr) = [Backward (aggregate ets2 ?acc) lr]"
    by (simp add: finish_epoch_def Let_def eq)
  have lands: "\<forall>i < length data.
             aggregate ets1 ?acc ! i
               = sent (i div batchSize) (take batchSize (drop (i div batchSize * batchSize) data))
                   ! (i mod batchSize)"
    using nth [OF e1] by simp
  from eq lands call show ?thesis by (intro conjI)
qed

lemma dispatch_corpus12:
  "dispatch corpus12 = [(0, [0, 1, 2, 3, 4, 5, 6, 7, 8, 9]), (1, [10, 11])]"
  by (simp add: dispatch_def numBatches_def batchSize_def corpus12_def upt_rec)

theorem C2_aggregation_order_independent_witness:
  "aggregate [(row_worker 1 [10, 11], 1), (row_worker 0 [0, 1, 2, 3, 4, 5, 6, 7, 8, 9], 0)]
       (replicate (length corpus12) (replicate 2 0))
     = aggregate [(row_worker 0 [0, 1, 2, 3, 4, 5, 6, 7, 8, 9], 0), (row_worker 1 [10, 11], 1)]
         (replicate (length corpus12) (replicate 2 0))
   \<and> aggregate [(row_worker 1 [10, 11], 1), (row_worker 0 [0, 1, 2, 3, 4, 5, 6, 7, 8, 9], 0)]
       (replicate (length corpus12) (replicate 2 0)) ! 11 = [11, 1]
   \<and> fst (finish_epoch (length corpus12) 2 [3, 4]
         [(row_worker 1 [10, 11], 1), (row_worker 0 [0, 1, 2, 3, 4, 5, 6, 7, 8, 9], 0)] (1 / 10))
       = [Backward (aggregate [(row_worker 0 [0, 1, 2, 3, 4, 5, 6, 7, 8, 9], 0), (row_worker 1 [10, 11], 1)]
            (replicate (length corpus12) (replicate 2 0))) (1 / 10)]"
proof -
  have w: "\<forall>b batch. length (row_worker b batch) = length batch"
    by (simp add: row_worker_def)
  have e1: "mset [(row_worker 1 [10, 11], 1), (row_worker 0 [0, 1, 2, 3, 4, 5, 6, 7, 8, 9], 0)]
              = mset (map (\<lambda>(b, batch). (row_worker b batch, b)) (dispatch corpus12))"
    unfolding dispatch_corpus12 by (simp add: add_mset_commute)
  have e2: "mset [(row_worker 0 [0, 1, 2, 3, 4, 5, 6, 7, 8, 9], 0), (row_worker 1 [10, 11], 1)]
              = mset (map (\<lambda>(b, batch). (row_worker b batch, b)) (dispatch corpus12))"
    by (simp add: dispatch_corpus12)
  have i: "11 < length corpus12" by (simp add: corpus12_def)
  note inst = C2_aggregation_order_independent [OF w e1 e2, of 2 "[3, 4]" "1 / 10"]
  from inst have eq: "aggregate [(row_worker 1 [10, 11], 1), (row_worker 0 [0, 1, 2, 3, 4, 5, 6, 7, 8, 9], 0)]
       (replicate (length corpus12) (replicate 2 0))
     = aggregate [(row_worker 0 [0, 1, 2, 3, 4, 5, 6, 7, 8, 9], 0), (row_worker 1 [10, 11], 1)]
         (replicate (length corpus12) (replicate 2 0))"
    by (rule conjunct1)
  from inst have call: "fst (finish_epoch (length corpus12) 2 [3, 4]
         [(row_worker 1 [10, 11], 1), (row_worker 0 [0, 1, 2, 3, 4, 5, 6, 7, 8, 9], 0)] (1 / 10))
       = [Backward (aggregate [(row_worker 0 [0, 1, 2, 3, 4, 5, 6, 7, 8, 9], 0), (row_worker 1 [10, 11], 1)]
            (replicate (length corpus12) (replicate 2 0))) (1 / 10)]"
    by (rule conjunct2 [THEN conjunct2])
  from inst have "\<forall>i < length corpus12.
      aggregate [(row_worker 1 [10, 11], 1), (row_worker 0 [0, 1, 2, 3, 4, 5, 6, 7, 8, 9], 0)]
       (replicate (length corpus12) (replicate 2 0)) ! i
     = row_worker (i div batchSize) (take batchSize (drop (i div batchSize * batchSize) corpus12))
                   ! (i mod batchSize)"
    by (rule conjunct2 [THEN conjunct1])
  with i have "aggregate [(row_worker 1 [10, 11], 1), (row_worker 0 [0, 1, 2, 3, 4, 5, 6, 7, 8, 9], 0)]
       (replicate (length corpus12) (replicate 2 0)) ! 11
     = row_worker (11 div batchSize) (take batchSize (drop (11 div batchSize * batchSize) corpus12))
                   ! (11 mod batchSize)"
    by simp
  also have "\<dots> = [11, 1]"
    by (simp add: batchSize_def corpus12_def row_worker_def)
  finally have lands: "aggregate [(row_worker 1 [10, 11], 1), (row_worker 0 [0, 1, 2, 3, 4, 5, 6, 7, 8, 9], 0)]
       (replicate (length corpus12) (replicate 2 0)) ! 11 = [11, 1]" .
  from eq lands call show ?thesis by (intro conjI)
qed



section \<open>Loops, and what \<^verbatim>\<open>GenerateBetter\<close> leaves alone\<close>

lemma for_each_invariant:
  assumes "for_each body xs s = Inr s'" and "P s"
    and "\<And>x s s'. x \<in> set xs \<Longrightarrow> P s \<Longrightarrow> body x s = Inr s' \<Longrightarrow> P s'"
  shows "P s'"
  using assms
proof (induction xs arbitrary: s)
  case Nil
  then show ?case by simp
next
  case (Cons x xs)
  from Cons.prems(1) obtain s1 where s1: "body x s = Inr s1" "for_each body xs s1 = Inr s'"
    by (auto split: sum.splits)
  have "P s1" using Cons.prems(2) s1(1) by (intro Cons.prems(3) [of x s s1]) simp_all
  have step: "\<And>y t t'. y \<in> set xs \<Longrightarrow> P t \<Longrightarrow> body y t = Inr t' \<Longrightarrow> P t'"
    using Cons.prems(3) by (meson list.set_intros(2))
  from s1(2) \<open>P s1\<close> step show ?case by (rule Cons.IH)
qed

lemma for_each_total:
  assumes "P s"
    and "\<And>x s. x \<in> set xs \<Longrightarrow> P s \<Longrightarrow> \<exists>s'. body x s = Inr s' \<and> P s'"
  shows "\<exists>s'. for_each body xs s = Inr s' \<and> P s'"
  using assms
proof (induction xs arbitrary: s)
  case Nil
  then show ?case by simp
next
  case (Cons x xs)
  then obtain s1 where s1: "body x s = Inr s1" "P s1" by (meson list.set_intros(1))
  have "\<exists>s'. for_each body xs s1 = Inr s' \<and> P s'"
    using s1(2) Cons.prems(2) by (intro Cons.IH) simp_all
  with s1(1) show ?case by simp
qed

lemma unmask_no_mask: "maskID \<noteq> 0 \<Longrightarrow> maskID \<notin> set (unmask maskID current)"
  by (auto simp: unmask_def)

lemma unmask_length: "length (unmask maskID current) = length current"
  by (simp add: unmask_def)

lemma topk_only_refl: "topk_only d d"
  by (simp add: topk_only_def)

lemma topk_only_mask: "topk_only d d' \<Longrightarrow> maskTokenID d' = maskTokenID d"
  by (simp add: topk_only_def maskTokenID_def)

lemma topk_only_clamp: "topk_only d d' \<Longrightarrow> topk_only d (clamp_topk d' n)"
  by (simp add: topk_only_def clamp_topk_def Let_def)

lemma topk_only_same:
  "topk_only d d' \<Longrightarrow> TopK (Config d') = TopK (Config d) \<Longrightarrow> d' = d"
  by (simp add: topk_only_def DiffusionModel.equality DiffusionConfig.equality)

lemma clamp_topk_in_range:
  "1 \<le> TopK (Config d) \<Longrightarrow> TopK (Config d) \<le> int n \<Longrightarrow> clamp_topk d n = d"
  by (simp add: clamp_topk_def)

lemma clamp_topk_range:
  "0 < n \<Longrightarrow> 1 \<le> TopK (Config (clamp_topk d n)) \<and> TopK (Config (clamp_topk d n)) \<le> int n"
  by (simp add: clamp_topk_def Let_def)

lemma length_insert_desc: "length (insert_desc x ys) = Suc (length ys)"
  by (induction ys) auto

lemma length_sort_desc_aux:
  "length (foldl (\<lambda>sorted x. insert_desc x sorted) acc xs) = length acc + length xs"
  by (induction xs arbitrary: acc) (auto simp: length_insert_desc)

lemma length_sort_desc: "length (sort_desc xs) = length xs"
  by (simp add: sort_desc_def length_sort_desc_aux)

lemma slice_length: "slice xs lo hi = Inr ys \<Longrightarrow> length ys = hi - lo"
  by (auto simp: slice_def split: if_splits)

lemma slice_total: "lo \<le> hi \<Longrightarrow> hi \<le> length xs \<Longrightarrow> \<exists>ys. slice xs lo hi = Inr ys"
  by (simp add: slice_def)

lemma better_probs_length: "better_probs d probs = Inr ps \<Longrightarrow> length ps = length probs"
  by (auto simp: better_probs_def Let_def split: if_splits)

lemma draw_total: "topK \<noteq> [] \<Longrightarrow> \<exists>c. draw r topK = Inr c"
  by (cases topK) (auto simp: draw_def)

lemma take_topk_total:
  "1 \<le> k \<Longrightarrow> k \<le> int (length xs) \<Longrightarrow> \<exists>ys. take_topk k xs = Inr ys \<and> ys \<noteq> []"
  by (cases xs) (auto simp: take_topk_def)

lemma remask_fold_length:
  "length (fst (fold (remask pR m rnd) is st)) = length (fst st)"
  by (induction "is" arbitrary: st) (auto simp: remask_def split: prod.splits)

lemma better_position_inv:
  assumes "better_position sm rnd preds i (d1, xcur, p, mp) = Inr (d2, xcur2, p2, mp2)"
    and "topk_only d d1"
  shows "topk_only d d2 \<and> length xcur2 = length xcur"
  using assms
  by (auto simp: better_position_def better_choice_def Let_def topk_only_clamp split: if_splits sum.splits)

lemma better_position_same:
  assumes "better_position sm rnd preds i (d1, xcur, p, mp) = Inr (d2, xcur2, p2, mp2)"
    and "\<forall>xs. length (sm xs) = length xs"
    and "1 \<le> TopK (Config d1)" and "TopK (Config d1) \<le> int (VocabSize (Tokenizer d1))"
  shows "d2 = d1"
proof (cases "xcur ! i = maskTokenID d1")
  case False
  with assms(1) show ?thesis by (simp add: better_position_def)
next
  case True
  let ?V = "VocabSize (Tokenizer d1)"
  from assms(1) True obtain logits probs where
    l: "slice preds (i * ?V) (i * ?V + ?V) = Inr logits" and
    pr: "better_probs d1 (sm logits) = Inr probs"
    by (auto simp: better_position_def better_choice_def Let_def split: sum.splits)
  have "length probs = ?V"
    using better_probs_length [OF pr] slice_length [OF l] assms(2) by simp
  then have "clamp_topk d1 (length (sort_desc (zip (map int [0 ..< length (map (\<lambda>p. p / sum_list probs) probs)])
        (map (\<lambda>p. p / sum_list probs) probs)))) = d1"
    using assms(3,4) by (simp add: length_sort_desc clamp_topk_in_range)
  with assms(1) True l pr show ?thesis
    by (auto simp: better_position_def better_choice_def Let_def split: if_splits sum.splits)
qed

lemma better_step_inv:
  assumes "better_step fwd sm rnd t (d1, xcur, p) = Inr (d2, xcur2, p2)" and "topk_only d d1"
  shows "topk_only d d2 \<and> length xcur2 = length xcur"
proof -
  from assms(1) obtain preds rest d3 x3 p3 mp3 where
    run: "for_each (better_position sm rnd preds) [0 ..< length xcur] (d1, xcur, p, []) = Inr (d3, x3, p3, mp3)"
    and fin: "(if t > 0
          then (let (xcur, p) = fold (remask (real t / real (NumTimesteps (Config d3))) (maskTokenID d3) rnd) mp3 (x3, p3)
                in Inr (d3, xcur, p))
          else Inr (d3, x3, p3)) = (Inr (d2, xcur2, p2) :: panic + DiffusionModel \<times> int list \<times> nat)"
    by (auto simp: better_step_def Let_def split: list.splits sum.splits)
  have "case (d3, x3, p3, mp3) of (d', x, p', mp) \<Rightarrow> topk_only d d' \<and> length x = length xcur"
  proof (rule for_each_invariant [OF run])
    show "case (d1, xcur, p, []) of (d', x, p', mp) \<Rightarrow> topk_only d d' \<and> length x = length xcur"
      using assms(2) by simp
  next
    fix i st st'
    assume "case st of (d', x, p', mp) \<Rightarrow> topk_only d d' \<and> length x = length xcur"
      and "better_position sm rnd preds i st = Inr st'"
    then show "case st' of (d', x, p', mp) \<Rightarrow> topk_only d d' \<and> length x = length xcur"
      by (cases st, cases st') (auto dest: better_position_inv)
  qed
  then have i3: "topk_only d d3" "length x3 = length xcur" by simp_all
  show ?thesis
  proof (cases "t > 0")
    case True
    with fin have "d2 = d3"
      "xcur2 = fst (fold (remask (real t / real (NumTimesteps (Config d3))) (maskTokenID d3) rnd) mp3 (x3, p3))"
      by (auto simp: Let_def split: prod.splits)
    with i3 show ?thesis by (simp add: remask_fold_length)
  next
    case False
    with fin i3 show ?thesis by simp
  qed
qed

lemma better_step_same:
  assumes "better_step fwd sm rnd t (d1, xcur, p) = Inr (d2, xcur2, p2)"
    and "\<forall>xs. length (sm xs) = length xs"
    and "1 \<le> TopK (Config d1)" and "TopK (Config d1) \<le> int (VocabSize (Tokenizer d1))"
  shows "d2 = d1"
proof -
  from assms(1) obtain preds d3 x3 p3 mp3 where
    run: "for_each (better_position sm rnd preds) [0 ..< length xcur] (d1, xcur, p, []) = Inr (d3, x3, p3, mp3)"
    and fin: "d2 = d3"
    by (auto simp: better_step_def Let_def split: list.splits sum.splits if_splits prod.splits)
  have "case (d3, x3, p3, mp3) of (d', x, p', mp) \<Rightarrow> d' = d1"
  proof (rule for_each_invariant [OF run])
    show "case (d1, xcur, p, []) of (d', x, p', mp) \<Rightarrow> d' = d1" by simp
  next
    fix i st st'
    assume "case st of (d', x, p', mp) \<Rightarrow> d' = d1"
      and "better_position sm rnd preds i st = Inr st'"
    then show "case st' of (d', x, p', mp) \<Rightarrow> d' = d1"
      using assms(2,3,4) by (cases st, cases st') (auto dest: better_position_same)
  qed
  with fin show ?thesis by simp
qed

lemma GenerateBetter_inv:
  assumes "GenerateBetter d fwd sm rnd p = Inr (d', xs, p')"
  shows "topk_only d d' \<and> length xs = MaxLength (Config d)"
proof -
  from assms obtain xcur where
    run: "for_each (better_step fwd sm rnd) (rev [0 ..< NumTimesteps (Config d)])
             (d, replicate (MaxLength (Config d)) (maskTokenID d), p) = Inr (d', xcur, p')"
    and xs: "xs = unmask (maskTokenID d) xcur"
    by (auto simp: GenerateBetter_def split: sum.splits)
  have "case (d', xcur, p') of (d2, x, q) \<Rightarrow> topk_only d d2 \<and> length x = MaxLength (Config d)"
  proof (rule for_each_invariant [OF run])
    show "case (d, replicate (MaxLength (Config d)) (maskTokenID d), p) of
            (d2, x, q) \<Rightarrow> topk_only d d2 \<and> length x = MaxLength (Config d)"
      by (simp add: topk_only_refl)
  next
    fix t st st'
    assume "case st of (d2, x, q) \<Rightarrow> topk_only d d2 \<and> length x = MaxLength (Config d)"
      and "better_step fwd sm rnd t st = Inr st'"
    then show "case st' of (d2, x, q) \<Rightarrow> topk_only d d2 \<and> length x = MaxLength (Config d)"
      by (cases st, cases st') (auto dest: better_step_inv)
  qed
  with xs show ?thesis by (simp add: unmask_length)
qed

lemma GenerateBetter_same:
  assumes "GenerateBetter d fwd sm rnd p = Inr (d', xs, p')"
    and "\<forall>xs. length (sm xs) = length xs"
    and "1 \<le> TopK (Config d)" and "TopK (Config d) \<le> int (VocabSize (Tokenizer d))"
  shows "d' = d"
proof -
  from assms(1) obtain xcur where
    run: "for_each (better_step fwd sm rnd) (rev [0 ..< NumTimesteps (Config d)])
             (d, replicate (MaxLength (Config d)) (maskTokenID d), p) = Inr (d', xcur, p')"
    by (auto simp: GenerateBetter_def split: sum.splits)
  have "case (d', xcur, p') of (d2, x, q) \<Rightarrow> d2 = d"
  proof (rule for_each_invariant [OF run])
    show "case (d, replicate (MaxLength (Config d)) (maskTokenID d), p) of (d2, x, q) \<Rightarrow> d2 = d"
      by simp
  next
    fix t st st'
    assume "case st of (d2, x, q) \<Rightarrow> d2 = d" and "better_step fwd sm rnd t st = Inr st'"
    then show "case st' of (d2, x, q) \<Rightarrow> d2 = d"
      using assms(2,3,4) by (cases st, cases st') (auto dest: better_step_same)
  qed
  then show ?thesis by simp
qed


section \<open>The example model\<close>

lemma NewDiffusionModel_Config: "Config (NewDiffusionModel config sentences) = config"
  by (simp add: NewDiffusionModel_def Let_def fold_table_fields)

lemma NewDiffusionModel_Tokenizer:
  "Tokenizer (NewDiffusionModel config sentences) = NewCustomTokenizer sentences"
  by (simp add: NewDiffusionModel_def Let_def fold_table_fields)

lemma empty_corpus_tokenizer:
  "VocabSize (NewCustomTokenizer []) = 4"
  "Vocab (NewCustomTokenizer []) ''[MASK]'' = Some 1"
  "Vocab (NewCustomTokenizer []) ''[PAD]'' = Some 0"
  by (simp_all add: NewCustomTokenizer_def add_special_def specials_def empty_tokenizer_def upt_rec)

lemma gen_example_facts:
  "Config (gen_example k temp) = gen_config k temp"
  "VocabSize (Tokenizer (gen_example k temp)) = 4"
  "maskTokenID (gen_example k temp) = 1"
  "padTokenID (gen_example k temp) = 0"
  by (simp_all add: gen_example_def NewDiffusionModel_Config NewDiffusionModel_Tokenizer
      empty_corpus_tokenizer maskTokenID_def padTokenID_def vocab_id_def)

lemma maskTokenID_Config_update: "maskTokenID (d\<lparr>Config := c\<rparr>) = maskTokenID d"
  by (simp add: maskTokenID_def)

lemmas gen_eval = gen_example_facts maskTokenID_Config_update gen_config_def flat_fwd_def peaked_sm_def underflow_sm_def
  GenerateMasked_tokens_def masked_step_def masked_position_def output_row_def sample_masked_def
  masked_candidates_def take_topk_def sort_desc_def draw_def slice_def one_hot_def one_hot_row_def
  unmask_def remask_def GenerateBetter_def better_step_def better_position_def better_choice_def better_probs_def
  clamp_topk_def Let_def upt_rec


section \<open>\<^verbatim>\<open>GenerateBetter\<close> returns\<close>

lemma topk_only_vocab: "topk_only d d' \<Longrightarrow> VocabSize (Tokenizer d') = VocabSize (Tokenizer d)"
  by (simp add: topk_only_def)

lemma better_position_total:
  assumes inv: "topk_only d d1" "length xcur = MaxLength (Config d)"
    and i: "i < MaxLength (Config d)"
    and preds: "MaxLength (Config d) * VocabSize (Tokenizer d) \<le> length preds"
    and sm: "\<forall>logits. length (sm logits) = length logits"
    and m: "0 \<le> maskTokenID d" "maskTokenID d < int (VocabSize (Tokenizer d))"
  shows "\<exists>st'. better_position sm rnd preds i (d1, xcur, p, mp) = Inr st'"
proof (cases "xcur ! i = maskTokenID d1")
  case False
  then show ?thesis by (simp add: better_position_def)
next
  case True
  let ?V = "VocabSize (Tokenizer d)"
  have V1: "VocabSize (Tokenizer d1) = ?V" using inv(1) by (rule topk_only_vocab)
  have m1: "maskTokenID d1 = maskTokenID d" using inv(1) by (rule topk_only_mask)
  have "Suc i * ?V \<le> MaxLength (Config d) * ?V" using i by (intro mult_le_mono1) simp
  then have "i * ?V + ?V \<le> length preds" using preds by simp
  then obtain logits where l: "slice preds (i * ?V) (i * ?V + ?V) = Inr logits"
    using slice_total [of "i * ?V" "i * ?V + ?V" preds] by auto
  have ll: "length (sm logits) = ?V" using slice_length [OF l] sm by simp
  define ps where "ps = (if Temperature (Config d1) > 1 / 10 ^ 12
                   then map (\<lambda>p. p / Temperature (Config d1)) (sm logits) else sm logits)"
  have "length ps = ?V" by (simp add: ps_def ll)
  then have "better_probs d1 (sm logits) = Inr (ps[nat (maskTokenID d1) := 0])"
    using m m1 unfolding better_probs_def Let_def ps_def [symmetric] by simp
  then obtain probs where pr: "better_probs d1 (sm logits) = Inr probs" by blast
  have lp: "length probs = ?V" using better_probs_length [OF pr] ll by simp
  have Vpos: "0 < ?V" using m by linarith
  show ?thesis
  proof (cases "sum_list probs < 1 / 10 ^ 12")
    case True
    with \<open>xcur ! i = maskTokenID d1\<close> l pr V1 show ?thesis
      by (simp add: better_position_def better_choice_def Let_def)
  next
    case False
    let ?tk = "sort_desc (zip (map int [0 ..< length (map (\<lambda>p. p / sum_list probs) probs)])
                 (map (\<lambda>p. p / sum_list probs) probs))"
    have ltk: "length ?tk = ?V" by (simp add: length_sort_desc lp)
    have "1 \<le> TopK (Config (clamp_topk d1 (length ?tk)))
          \<and> TopK (Config (clamp_topk d1 (length ?tk))) \<le> int (length ?tk)"
      using Vpos ltk by (intro clamp_topk_range) simp
    then obtain kept where k: "take_topk (TopK (Config (clamp_topk d1 (length ?tk)))) ?tk = Inr kept"
        "kept \<noteq> []"
      using take_topk_total by blast
    obtain c where "draw (rnd p) kept = Inr c" using draw_total [OF k(2)] by blast
    with False \<open>xcur ! i = maskTokenID d1\<close> l pr V1 k(1) show ?thesis
      by (simp add: better_position_def better_choice_def Let_def)
  qed
qed

lemma better_step_total:
  assumes inv: "topk_only d d1" "length xcur = MaxLength (Config d)"
    and ws: "well_shaped d fwd sm"
  shows "\<exists>st'. better_step fwd sm rnd t (d1, xcur, p) = Inr st'"
proof -
  let ?V = "VocabSize (Tokenizer d)"
  have V1: "VocabSize (Tokenizer d1) = ?V" using inv(1) by (rule topk_only_vocab)
  obtain preds rest where f: "fwd (one_hot ?V xcur) = preds # rest"
    using ws by (cases "fwd (one_hot ?V xcur)") (auto simp: well_shaped_def)
  have pl: "MaxLength (Config d) * ?V \<le> length preds"
    using ws f by (metis list.sel(1) well_shaped_def)
  have "\<exists>st'. for_each (better_position sm rnd preds) [0 ..< length xcur] (d1, xcur, p, []) = Inr st'
          \<and> (case st' of (d', x, q, mp) \<Rightarrow> topk_only d d' \<and> length x = MaxLength (Config d))"
  proof (rule for_each_total)
    show "case (d1, xcur, p, []) of (d', x, q, mp) \<Rightarrow> topk_only d d' \<and> length x = MaxLength (Config d)"
      using inv by simp
  next
    fix i and st :: "DiffusionModel \<times> int list \<times> nat \<times> nat list"
    assume i: "i \<in> set [0 ..< length xcur]"
      and st: "case st of (d', x, q, mp) \<Rightarrow> topk_only d d' \<and> length x = MaxLength (Config d)"
    obtain d2 x2 q2 mp2 where s2: "st = (d2, x2, q2, mp2)" by (cases st)
    have inv2: "topk_only d d2" "length x2 = MaxLength (Config d)" using st s2 by simp_all
    have "i < MaxLength (Config d)" using i inv(2) by simp
    with inv2 pl ws obtain st' where r: "better_position sm rnd preds i (d2, x2, q2, mp2) = Inr st'"
      using better_position_total [of d d2 x2 i preds sm rnd q2 mp2] by (auto simp: well_shaped_def)
    obtain d3 x3 q3 mp3 where s3: "st' = (d3, x3, q3, mp3)" by (cases st')
    from better_position_inv [OF r [unfolded s3] inv2(1)] inv2(2)
    have "topk_only d d3 \<and> length x3 = MaxLength (Config d)" by simp
    with r s2 s3 show "\<exists>st'. better_position sm rnd preds i st = Inr st'
          \<and> (case st' of (d', x, q, mp) \<Rightarrow> topk_only d d' \<and> length x = MaxLength (Config d))"
      by simp
  qed
  then obtain d3 x3 q3 mp3 where
    "for_each (better_position sm rnd preds) [0 ..< length xcur] (d1, xcur, p, []) = Inr (d3, x3, q3, mp3)"
    by auto
  with f V1 show ?thesis
    by (simp add: better_step_def Let_def split: prod.splits)
qed

lemma GenerateBetter_total:
  assumes "well_shaped d fwd sm"
  shows "\<exists>d' xs p'. GenerateBetter d fwd sm rnd p = Inr (d', xs, p')"
proof -
  have "\<exists>st'. for_each (better_step fwd sm rnd) (rev [0 ..< NumTimesteps (Config d)])
             (d, replicate (MaxLength (Config d)) (maskTokenID d), p) = Inr st'
          \<and> (case st' of (d2, x, q) \<Rightarrow> topk_only d d2 \<and> length x = MaxLength (Config d))"
  proof (rule for_each_total)
    show "case (d, replicate (MaxLength (Config d)) (maskTokenID d), p) of
            (d2, x, q) \<Rightarrow> topk_only d d2 \<and> length x = MaxLength (Config d)"
      by (simp add: topk_only_refl)
  next
    fix t and st :: "DiffusionModel \<times> int list \<times> nat"
    assume st: "case st of (d2, x, q) \<Rightarrow> topk_only d d2 \<and> length x = MaxLength (Config d)"
    obtain d2 x2 q2 where s2: "st = (d2, x2, q2)" by (cases st)
    have inv2: "topk_only d d2" "length x2 = MaxLength (Config d)" using st s2 by simp_all
    obtain st' where r: "better_step fwd sm rnd t (d2, x2, q2) = Inr st'"
      using better_step_total [OF inv2 assms] by blast
    obtain d3 x3 q3 where s3: "st' = (d3, x3, q3)" by (cases st')
    from better_step_inv [OF r [unfolded s3] inv2(1)] inv2(2)
    have "topk_only d d3 \<and> length x3 = MaxLength (Config d)" by simp
    with r s2 s3 show "\<exists>st'. better_step fwd sm rnd t st = Inr st'
          \<and> (case st' of (d2, x, q) \<Rightarrow> topk_only d d2 \<and> length x = MaxLength (Config d))"
      by simp
  qed
  then show ?thesis by (auto simp: GenerateBetter_def)
qed


section \<open>\<^verbatim>\<open>GenerateMasked\<close> returns\<close>

lemma output_rows_total:
  assumes "n * VocabSize (Tokenizer d) \<le> length row0"
  shows "for_each (output_row d (row0 # rest)) [0 ..< n] acc
           = Inr (acc @ map (\<lambda>i. take (VocabSize (Tokenizer d)) (drop (i * VocabSize (Tokenizer d)) row0))
                          [0 ..< n])"
  using assms
proof (induction n)
  case 0
  then show ?case by simp
next
  case (Suc n)
  then have "n * VocabSize (Tokenizer d) \<le> length row0" by simp
  with Suc show ?case
    by (simp add: for_each_append output_row_def slice_def)
qed

lemma sample_masked_total:
  assumes "VocabSize (Tokenizer d) \<le> length probs"
    and "1 \<le> TopK (Config d)" and "TopK (Config d) \<le> int (VocabSize (Tokenizer d))"
  shows "\<exists>c. sample_masked d probs r = Inr c"
proof -
  let ?cands = "map (\<lambda>j. (int j, if int j = maskTokenID d then 0
                                  else probs ! j / Temperature (Config d)))
                 [0 ..< VocabSize (Tokenizer d)]"
  have c: "masked_candidates d probs = Inr ?cands"
    using assms(1) by (simp add: masked_candidates_def)
  have "length (sort_desc ?cands) = VocabSize (Tokenizer d)" by (simp add: length_sort_desc)
  then obtain kept where k: "take_topk (TopK (Config d)) (sort_desc ?cands) = Inr kept" "kept \<noteq> []"
    using take_topk_total [of "TopK (Config d)" "sort_desc ?cands"] assms(2,3) by auto
  have "\<exists>c. draw r (map f kept) = Inr c" for f
    using k(2) by (intro draw_total) simp
  with c k(1) show ?thesis
    by (simp add: sample_masked_def Let_def)
qed

lemma masked_position_inv:
  "masked_position d sm rnd output i (cur, p, mp) = Inr (cur', p', mp') \<Longrightarrow> length cur' = length cur"
  by (auto simp: masked_position_def split: if_splits sum.splits)

lemma masked_step_inv:
  assumes "masked_step d fwd sm rnd s (cur, p) = Inr (cur', p')"
  shows "length cur' = length cur"
proof -
  from assms obtain outp c3 p3 mp3 where
    run: "for_each (masked_position d sm rnd outp) [0 ..< MaxLength (Config d)] (cur, p, []) = Inr (c3, p3, mp3)"
    and fin: "cur' = (if s > 1 then fst (fold (remask (real (s - 1) / real s) (maskTokenID d) rnd) mp3 (c3, p3)) else c3)"
    by (auto simp: masked_step_def Let_def split: sum.splits if_splits)
  have "case (c3, p3, mp3) of (c, q, mp) \<Rightarrow> length c = length cur"
  proof (rule for_each_invariant [OF run])
    show "case (cur, p, []) of (c, q, mp) \<Rightarrow> length c = length cur" by simp
  next
    fix i and st st' :: "int list \<times> nat \<times> nat list"
    assume "case st of (c, q, mp) \<Rightarrow> length c = length cur"
      and "masked_position d sm rnd outp i st = Inr st'"
    then show "case st' of (c, q, mp) \<Rightarrow> length c = length cur"
      by (cases st, cases st') (auto dest: masked_position_inv)
  qed
  with fin show ?thesis by (simp add: remask_fold_length)
qed

lemma GenerateMasked_tokens_length:
  assumes "GenerateMasked_tokens d fwd sm rnd p = Inr (xs, p')"
  shows "length xs = MaxLength (Config d)"
proof -
  from assms obtain cur where
    run: "for_each (masked_step d fwd sm rnd) (rev [1 ..< Suc (NumTimesteps (Config d))])
             (replicate (MaxLength (Config d)) (maskTokenID d), p) = Inr (cur, p')"
    and xs: "xs = unmask (maskTokenID d) cur"
    by (auto simp: GenerateMasked_tokens_def split: sum.splits)
  have "case (cur, p') of (c, q) \<Rightarrow> length c = MaxLength (Config d)"
  proof (rule for_each_invariant [OF run])
    show "case (replicate (MaxLength (Config d)) (maskTokenID d), p) of
            (c, q) \<Rightarrow> length c = MaxLength (Config d)" by simp
  next
    fix s and st st' :: "int list \<times> nat"
    assume "case st of (c, q) \<Rightarrow> length c = MaxLength (Config d)"
      and "masked_step d fwd sm rnd s st = Inr st'"
    then show "case st' of (c, q) \<Rightarrow> length c = MaxLength (Config d)"
      by (cases st, cases st') (auto dest: masked_step_inv)
  qed
  with xs show ?thesis by (simp add: unmask_length)
qed

lemma masked_step_total:
  assumes len: "length cur = MaxLength (Config d)"
    and ws: "well_shaped d fwd sm"
    and k: "1 \<le> TopK (Config d)" "TopK (Config d) \<le> int (VocabSize (Tokenizer d))"
  shows "\<exists>st'. masked_step d fwd sm rnd s (cur, p) = Inr st'"
proof -
  let ?V = "VocabSize (Tokenizer d)" and ?L = "MaxLength (Config d)"
  obtain row0 rest where f: "fwd (one_hot ?V cur) = row0 # rest"
    using ws by (cases "fwd (one_hot ?V cur)") (auto simp: well_shaped_def)
  have pl: "?L * ?V \<le> length row0"
    using ws f by (metis list.sel(1) well_shaped_def)
  define outp where "outp = map (\<lambda>i. take ?V (drop (i * ?V) row0)) [0 ..< ?L]"
  have out: "for_each (output_row d (fwd (one_hot ?V cur))) [0 ..< ?L] [] = Inr outp"
    using output_rows_total [OF pl, of rest "[]"] f by (simp add: outp_def)
  have row: "length (outp ! i) = ?V" if "i < ?L" for i
  proof -
    have "Suc i * ?V \<le> ?L * ?V" using that by (intro mult_le_mono1) simp
    then have "i * ?V + ?V \<le> length row0" using pl by simp
    then show ?thesis using that by (simp add: outp_def)
  qed
  have "\<exists>st'. for_each (masked_position d sm rnd outp) [0 ..< ?L] (cur, p, []) = Inr st'
          \<and> (case st' of (c, q, mp) \<Rightarrow> length c = ?L)"
  proof (rule for_each_total)
    show "case (cur, p, []) of (c, q, mp) \<Rightarrow> length c = ?L" using len by simp
  next
    fix i and st :: "int list \<times> nat \<times> nat list"
    assume i: "i \<in> set [0 ..< ?L]" and st: "case st of (c, q, mp) \<Rightarrow> length c = ?L"
    obtain c2 q2 mp2 where s2: "st = (c2, q2, mp2)" by (cases st)
    have "length (sm (outp ! i)) = ?V" using ws row i by (simp add: well_shaped_def)
    then obtain tok where "sample_masked d (sm (outp ! i)) (rnd q2) = Inr tok"
      using sample_masked_total [of d "sm (outp ! i)" "rnd q2"] k by auto
    then show "\<exists>st'. masked_position d sm rnd outp i st = Inr st'
          \<and> (case st' of (c, q, mp) \<Rightarrow> length c = ?L)"
      using st s2 by (simp add: masked_position_def)
  qed
  then obtain c3 q3 mp3 where
    "for_each (masked_position d sm rnd outp) [0 ..< ?L] (cur, p, []) = Inr (c3, q3, mp3)"
    by auto
  with out show ?thesis by (simp add: masked_step_def Let_def)
qed

lemma GenerateMasked_tokens_total:
  assumes ws: "well_shaped d fwd sm"
    and k: "1 \<le> TopK (Config d)" "TopK (Config d) \<le> int (VocabSize (Tokenizer d))"
  shows "\<exists>xs p'. GenerateMasked_tokens d fwd sm rnd p = Inr (xs, p')"
proof -
  have "\<exists>st'. for_each (masked_step d fwd sm rnd) (rev [1 ..< Suc (NumTimesteps (Config d))])
             (replicate (MaxLength (Config d)) (maskTokenID d), p) = Inr st'
          \<and> (case st' of (c, q) \<Rightarrow> length c = MaxLength (Config d))"
  proof (rule for_each_total)
    show "case (replicate (MaxLength (Config d)) (maskTokenID d), p) of
            (c, q) \<Rightarrow> length c = MaxLength (Config d)" by simp
  next
    fix s and st :: "int list \<times> nat"
    assume st: "case st of (c, q) \<Rightarrow> length c = MaxLength (Config d)"
    obtain c2 q2 where s2: "st = (c2, q2)" by (cases st)
    have l2: "length c2 = MaxLength (Config d)" using st s2 by simp
    obtain st' where r: "masked_step d fwd sm rnd s (c2, q2) = Inr st'"
      using masked_step_total [OF l2 ws k] by blast
    obtain c3 q3 where s3: "st' = (c3, q3)" by (cases st')
    from masked_step_inv [OF r [unfolded s3]] l2 have "length c3 = MaxLength (Config d)" by simp
    with r s2 s3 show "\<exists>st'. masked_step d fwd sm rnd s st = Inr st'
          \<and> (case st' of (c, q) \<Rightarrow> length c = MaxLength (Config d))"
      by simp
  qed
  then show ?thesis by (auto simp: GenerateMasked_tokens_def)
qed

lemma GenerateMasked_tokens_no_mask:
  "GenerateMasked_tokens d fwd sm rnd p = Inr (xs, p') \<Longrightarrow> maskTokenID d \<noteq> 0
     \<Longrightarrow> maskTokenID d \<notin> set xs"
  by (auto simp: GenerateMasked_tokens_def unmask_def split: sum.splits)

lemma GenerateBetter_no_mask:
  "GenerateBetter d fwd sm rnd p = Inr (d', xs, p') \<Longrightarrow> maskTokenID d \<noteq> 0
     \<Longrightarrow> maskTokenID d \<notin> set xs"
  by (auto simp: GenerateBetter_def unmask_def split: sum.splits)


section \<open>Temperature in \<^verbatim>\<open>GenerateMasked\<close>\<close>

lemma insert_desc_scale:
  "0 < a \<Longrightarrow> insert_desc (scale a x) (map (scale a) ys) = map (scale a) (insert_desc x ys)"
  by (induction ys) (auto simp: scale_def)

lemma sort_desc_scale_aux:
  "0 < a \<Longrightarrow>
   foldl (\<lambda>sorted x. insert_desc x sorted) (map (scale a) acc) (map (scale a) xs)
     = map (scale a) (foldl (\<lambda>sorted x. insert_desc x sorted) acc xs)"
proof (induction xs arbitrary: acc)
  case Nil
  then show ?case by simp
next
  case (Cons x xs)
  from Cons.IH [OF Cons.prems, of "insert_desc x acc"] Cons.prems
  show ?case by (simp add: insert_desc_scale)
qed

lemma sort_desc_scale: "0 < a \<Longrightarrow> sort_desc (map (scale a) xs) = map (scale a) (sort_desc xs)"
  using sort_desc_scale_aux [of a "[]" xs] by (simp add: sort_desc_def)

lemma take_topk_map:
  "take_topk k (map f xs) = (case take_topk k xs of Inl e \<Rightarrow> Inl e | Inr ys \<Rightarrow> Inr (map f ys))"
  by (simp add: take_topk_def take_map)

lemma sum_scale: "sum_list (map snd (map (scale a) xs)) = a * sum_list (map snd xs)"
  by (induction xs) (auto simp: scale_def algebra_simps)

lemma set_temperature_fields:
  "Tokenizer (set_temperature d temp) = Tokenizer d"
  "maskTokenID (set_temperature d temp) = maskTokenID d"
  "TopK (Config (set_temperature d temp)) = TopK (Config d)"
  "MaxLength (Config (set_temperature d temp)) = MaxLength (Config d)"
  "NumTimesteps (Config (set_temperature d temp)) = NumTimesteps (Config d)"
  "Temperature (Config (set_temperature d temp)) = temp"
  by (simp_all add: set_temperature_def maskTokenID_def)

lemma masked_candidates_scale:
  "masked_candidates d probs
     = (case masked_candidates (set_temperature d 1) probs of
          Inl e \<Rightarrow> Inl e
        | Inr cs \<Rightarrow> Inr (map (scale (1 / Temperature (Config d))) cs))"
  by (simp add: masked_candidates_def set_temperature_fields scale_def)

lemma sample_masked_kept:
  assumes "masked_candidates d probs = Inr cs"
    and "take_topk (TopK (Config d)) (sort_desc cs) = Inr kept"
  shows "sample_masked d probs r
           = draw r (if sum_list (map snd kept) = 0
                     then map (\<lambda>c. (fst c, 1 / real_of_int (TopK (Config d)))) kept
                     else map (\<lambda>c. (fst c, snd c / sum_list (map snd kept))) kept)"
  using assms by (simp add: sample_masked_def Let_def)

lemma sample_masked_unit:
  assumes "0 < Temperature (Config d)"
  shows "sample_masked d probs r = sample_masked (set_temperature d 1) probs r"
proof (cases "masked_candidates (set_temperature d 1) probs")
  case (Inl e)
  then show ?thesis by (simp add: sample_masked_def masked_candidates_scale [of d])
next
  case (Inr cs)
  let ?a = "1 / Temperature (Config d)"
  have a: "0 < ?a" using assms by simp
  have cd: "masked_candidates d probs = Inr (map (scale ?a) cs)"
    using Inr by (simp add: masked_candidates_scale [of d])
  show ?thesis
  proof (cases "take_topk (TopK (Config d)) (sort_desc cs)")
    case (Inl e)
    then have "take_topk (TopK (Config d)) (sort_desc (map (scale ?a) cs)) = Inl e"
      using a by (simp add: sort_desc_scale take_topk_map)
    with Inl Inr cd show ?thesis
      by (simp add: sample_masked_def set_temperature_fields)
  next
    case kept: (Inr kept)
    let ?S = "sum_list (map snd kept)"
    let ?K = "1 / real_of_int (TopK (Config d))"
    have kd: "take_topk (TopK (Config d)) (sort_desc (map (scale ?a) cs)) = Inr (map (scale ?a) kept)"
      using a kept by (simp add: sort_desc_scale take_topk_map)
    have k1: "take_topk (TopK (Config (set_temperature d 1))) (sort_desc cs) = Inr kept"
      using kept by (simp add: set_temperature_fields)
    have sum: "sum_list (map snd (map (scale ?a) kept)) = ?a * ?S" by (rule sum_scale)
    have "(if ?a * ?S = 0
           then map (\<lambda>c. (fst c, ?K)) (map (scale ?a) kept)
           else map (\<lambda>c. (fst c, snd c / (?a * ?S))) (map (scale ?a) kept))
        = (if ?S = 0
           then map (\<lambda>c. (fst c, ?K)) kept
           else map (\<lambda>c. (fst c, snd c / ?S)) kept)"
      using a by (auto simp: scale_def)
    then have "sample_masked d probs r
        = draw r (if ?S = 0 then map (\<lambda>c. (fst c, ?K)) kept
                  else map (\<lambda>c. (fst c, snd c / ?S)) kept)"
      unfolding sample_masked_kept [OF cd kd] sum by simp
    also have "\<dots> = sample_masked (set_temperature d 1) probs r"
      unfolding sample_masked_kept [OF Inr k1] by (simp add: set_temperature_fields)
    finally show ?thesis .
  qed
qed

lemma set_temperature_twice: "set_temperature (set_temperature d a) b = set_temperature d b"
  by (simp add: set_temperature_def)

lemma sample_masked_temperature:
  assumes "0 < Temperature (Config d)" and "0 < temp"
  shows "sample_masked (set_temperature d temp) probs r = sample_masked d probs r"
  using sample_masked_unit [of d probs r] sample_masked_unit [of "set_temperature d temp" probs r] assms
  by (simp add: set_temperature_fields set_temperature_twice)

lemma GenerateMasked_temperature:
  assumes "0 < Temperature (Config d)" and "0 < temp"
  shows "GenerateMasked (set_temperature d temp) fwd sm rnd p = GenerateMasked d fwd sm rnd p"
proof -
  have pos: "masked_position (set_temperature d temp) sm rnd = masked_position d sm rnd"
    by (intro ext) (simp add: masked_position_def set_temperature_fields
        sample_masked_temperature [OF assms] split: prod.splits)
  have row: "output_row (set_temperature d temp) = output_row d"
    unfolding output_row_def set_temperature_fields ..
  have step: "masked_step (set_temperature d temp) fwd sm rnd = masked_step d fwd sm rnd"
    unfolding masked_step_def set_temperature_fields pos row ..
  show ?thesis
    unfolding GenerateMasked_def GenerateMasked_tokens_def set_temperature_fields step ..
qed


section \<open>Temperature in \<^verbatim>\<open>GenerateBetter\<close>\<close>

lemma eff_temperature_pos: "0 < eff_temperature temp"
  by (simp add: eff_temperature_def)

lemma sum_list_div: "sum_list (map (\<lambda>p. p / c) xs) = sum_list xs / (c::real)"
  by (induction xs) (simp_all add: add_divide_distrib)

lemma better_probs_eff:
  "better_probs d probs
     = (if 0 \<le> maskTokenID d \<and> maskTokenID d < int (length probs)
        then Inr (map (\<lambda>p. p / eff_temperature (Temperature (Config d)))
                    (probs[nat (maskTokenID d) := 0]))
        else Inl IndexOutOfRange)"
  by (simp add: better_probs_def eff_temperature_def Let_def map_update)

lemma normalise_eff:
  assumes "0 < c"
  shows "map (\<lambda>p. p / sum_list (map (\<lambda>p. p / c) base)) (map (\<lambda>p. p / c) base)
           = map (\<lambda>p. p / sum_list base) (base :: real list)"
  using assms by (simp add: sum_list_div)

lemma better_position_expand:
  assumes "xcur ! i = maskTokenID d"
    and "slice preds (i * VocabSize (Tokenizer d)) (i * VocabSize (Tokenizer d) + VocabSize (Tokenizer d))
           = Inr logits"
    and "0 \<le> maskTokenID d" "maskTokenID d < int (length (sm logits))"
  shows "better_position sm rnd preds i (d, xcur, p, mp)
           = (if remaining_mass d (sm logits) / eff_temperature (Temperature (Config d)) < 1 / 10 ^ 12
              then Inr (d, xcur[i := 0], p, mp @ [i])
              else better_choice rnd i (d, xcur, p, mp @ [i]) ((sm logits)[nat (maskTokenID d) := 0]))"
proof -
  let ?c = "eff_temperature (Temperature (Config d))"
  let ?base = "(sm logits)[nat (maskTokenID d) := 0]"
  have pr: "better_probs d (sm logits) = Inr (map (\<lambda>p. p / ?c) ?base)"
    using assms(3,4) by (simp add: better_probs_eff)
  have s: "sum_list (map (\<lambda>p. p / ?c) ?base) = remaining_mass d (sm logits) / ?c"
    by (simp add: sum_list_div remaining_mass_def)
  have n: "map (\<lambda>p. p / sum_list (map (\<lambda>p. p / ?c) ?base)) (map (\<lambda>p. p / ?c) ?base)
             = map (\<lambda>p. p / sum_list ?base) ?base"
    using eff_temperature_pos by (rule normalise_eff)
  note n' = n [unfolded s]
  show ?thesis
    unfolding better_position_def better_choice_def prod.case Let_def
    by (simp only: assms(1) assms(2) pr s n' if_True sum.case simp_thms)
qed

lemma for_each_map_inv:
  assumes "P s"
    and "\<And>x s s'. P s \<Longrightarrow> g x s = Inr s' \<Longrightarrow> P s'"
    and "\<And>x s. P s \<Longrightarrow> f x (h s) = map_sum id h (g x s)"
  shows "for_each f xs (h s) = map_sum id h (for_each g xs s)"
  using assms(1)
proof (induction xs arbitrary: s)
  case Nil
  then show ?case by simp
next
  case (Cons x xs)
  show ?case
  proof (cases "g x s")
    case (Inl e)
    with Cons.prems assms(3) [of s x] show ?thesis by simp
  next
    case (Inr s')
    then have "P s'" using Cons.prems assms(2) by blast
    from Cons.IH [OF this] Inr Cons.prems assms(3) [of s x] show ?thesis by simp
  qed
qed

lemma clamp_topk_temperature:
  "clamp_topk (set_temperature d temp) n = set_temperature (clamp_topk d n) temp"
  by (simp add: clamp_topk_def set_temperature_def Let_def)

lemma better_choice_temperature:
  "better_choice rnd i (retemp temp (d, x, p, mp)) base
     = map_sum id (retemp temp) (better_choice rnd i (d, x, p, mp) base)"
  unfolding better_choice_def retemp_def fst_conv snd_conv prod.case Let_def
    clamp_topk_temperature set_temperature_fields
  by (simp split: sum.splits)

lemma better_position_bad_mask:
  assumes "xcur ! i = maskTokenID d"
    and "slice preds (i * VocabSize (Tokenizer d)) (i * VocabSize (Tokenizer d) + VocabSize (Tokenizer d))
           = Inr logits"
    and "\<not> (0 \<le> maskTokenID d \<and> maskTokenID d < int (length (sm logits)))"
  shows "better_position sm rnd preds i (d, xcur, p, mp) = Inl IndexOutOfRange"
proof -
  have "better_probs d (sm logits) = Inl IndexOutOfRange"
    by (simp only: better_probs_eff assms(3) if_False)
  then show ?thesis
    unfolding better_position_def prod.case Let_def
    by (simp only: assms(1) assms(2) if_True sum.case simp_thms)
qed

lemma for_each_met_rel:
  assumes "\<forall>S \<in> set (for_each_met met g xs s). A S"
    and "P s"
    and "\<And>x s s'. P s \<Longrightarrow> g x s = Inr s' \<Longrightarrow> P s'"
    and "\<And>x s. P s \<Longrightarrow> \<forall>S \<in> set (met x s). A S \<Longrightarrow> f x (h s) = map_sum id h (g x s)"
  shows "for_each f xs (h s) = map_sum id h (for_each g xs s)"
  using assms(1,2)
proof (induction xs arbitrary: s)
  case Nil
  then show ?case by simp
next
  case (Cons x xs)
  have here: "\<forall>S \<in> set (met x s). A S" using Cons.prems(1) by simp
  have fx: "f x (h s) = map_sum id h (g x s)" using Cons.prems(2) here by (rule assms(4))
  show ?case
  proof (cases "g x s")
    case (Inl e)
    with fx show ?thesis by simp
  next
    case (Inr s')
    have "P s'" using Cons.prems(2) Inr by (rule assms(3))
    moreover have "\<forall>S \<in> set (for_each_met met g xs s'). A S"
      using Cons.prems(1) Inr by simp
    ultimately have "for_each f xs (h s') = map_sum id h (for_each g xs s')"
      by (intro Cons.IH)
    with fx Inr show ?thesis by (simp add: id_def)
  qed
qed

lemma better_position_same_side:
  assumes "\<forall>S \<in> set (mass_at sm preds i (d, x, p, mp)). same_side (Temperature (Config d)) temp S"
  shows "better_position sm rnd preds i (retemp temp (d, x, p, mp))
           = map_sum id (retemp temp) (better_position sm rnd preds i (d, x, p, mp))"
proof (cases "x ! i = maskTokenID d")
  case False
  then show ?thesis
    by (simp add: better_position_def retemp_def set_temperature_fields)
next
  case True
  let ?V = "VocabSize (Tokenizer d)" and ?d' = "set_temperature d temp"
  show ?thesis
  proof (cases "slice preds (i * ?V) (i * ?V + ?V)")
    case (Inl e)
    with True show ?thesis
      by (simp add: better_position_def retemp_def set_temperature_fields Let_def)
  next
    case (Inr logits)
    show ?thesis
    proof (cases "0 \<le> maskTokenID d \<and> maskTokenID d < int (length (sm logits))")
      case False
      have "better_position sm rnd preds i (d, x, p, mp) = Inl IndexOutOfRange"
        using True Inr False by (rule better_position_bad_mask)
      moreover have "better_position sm rnd preds i (?d', x, p, mp) = Inl IndexOutOfRange"
        using True Inr False by (intro better_position_bad_mask) (simp_all add: set_temperature_fields)
      ultimately show ?thesis by (simp add: retemp_def)
    next
      case m: True
      have e1: "better_position sm rnd preds i (d, x, p, mp)
           = (if remaining_mass d (sm logits) / eff_temperature (Temperature (Config d)) < 1 / 10 ^ 12
              then Inr (d, x[i := 0], p, mp @ [i])
              else better_choice rnd i (d, x, p, mp @ [i]) ((sm logits)[nat (maskTokenID d) := 0]))"
        using True Inr m by (intro better_position_expand) simp_all
      have e2: "better_position sm rnd preds i (?d', x, p, mp)
           = (if remaining_mass ?d' (sm logits) / eff_temperature (Temperature (Config ?d')) < 1 / 10 ^ 12
              then Inr (?d', x[i := 0], p, mp @ [i])
              else better_choice rnd i (?d', x, p, mp @ [i]) ((sm logits)[nat (maskTokenID ?d') := 0]))"
        using True Inr m by (intro better_position_expand) (simp_all add: set_temperature_fields)
      have rm: "remaining_mass ?d' (sm logits) = remaining_mass d (sm logits)"
        by (simp add: remaining_mass_def set_temperature_fields)
      have "mass_at sm preds i (d, x, p, mp) = [remaining_mass d (sm logits)]"
        using True Inr m by (simp add: mass_at_def)
      with assms have "same_side (Temperature (Config d)) temp (remaining_mass d (sm logits))"
        by simp
      then have ag: "(remaining_mass d (sm logits) / eff_temperature (Temperature (Config d)) < 1 / 10 ^ 12)
          = (remaining_mass d (sm logits) / eff_temperature temp < 1 / 10 ^ 12)"
        by (simp add: same_side_def)
      have ch: "better_choice rnd i (?d', x, p, mp @ [i]) base
           = map_sum id (retemp temp) (better_choice rnd i (d, x, p, mp @ [i]) base)" for base
        using better_choice_temperature [of rnd i temp d x p "mp @ [i]" base]
        by (simp add: retemp_def)
      show ?thesis
        unfolding retemp_def fst_conv snd_conv e1 e2 rm set_temperature_fields ag ch
        by (simp add: retemp_def)
    qed
  qed
qed

lemma topk_only_temperature: "topk_only d d1 \<Longrightarrow> Temperature (Config d1) = Temperature (Config d)"
  by (simp add: topk_only_def)

lemma better_step_same_side:
  assumes met: "\<forall>S \<in> set (step_masses fwd sm rnd t (d, x, p)). same_side (Temperature (Config d0)) temp S"
    and inv: "topk_only d0 d"
  shows "better_step fwd sm rnd t (retemp temp (d, x, p))
           = map_sum id (retemp temp) (better_step fwd sm rnd t (d, x, p))"
proof (cases "fwd (one_hot (VocabSize (Tokenizer d)) x)")
  case Nil
  then show ?thesis
    by (simp add: better_step_def retemp_def set_temperature_fields)
next
  case (Cons preds rest)
  have met': "\<forall>S \<in> set (for_each_met (mass_at sm preds) (better_position sm rnd preds)
                 [0 ..< length x] (d, x, p, [])). same_side (Temperature (Config d0)) temp S"
    using met Cons by (simp add: step_masses_def)
  have loop: "for_each (better_position sm rnd preds) [0 ..< length x] (retemp temp (d, x, p, []))
          = map_sum id (retemp temp)
              (for_each (better_position sm rnd preds) [0 ..< length x] (d, x, p, []))"
  proof (rule for_each_met_rel [where P = "\<lambda>st. topk_only d0 (fst st)"
        and A = "same_side (Temperature (Config d0)) temp" and met = "mass_at sm preds"])
    show "\<forall>S \<in> set (for_each_met (mass_at sm preds) (better_position sm rnd preds)
                 [0 ..< length x] (d, x, p, [])). same_side (Temperature (Config d0)) temp S"
      by (rule met')
    show "topk_only d0 (fst (d, x, p, []))" using inv by simp
  next
    fix i and st st' :: "DiffusionModel \<times> int list \<times> nat \<times> nat list"
    assume "topk_only d0 (fst st)" and "better_position sm rnd preds i st = Inr st'"
    then show "topk_only d0 (fst st')"
      by (cases st, cases st') (auto dest: better_position_inv)
  next
    fix i and st :: "DiffusionModel \<times> int list \<times> nat \<times> nat list"
    assume P: "topk_only d0 (fst st)"
      and A: "\<forall>S \<in> set (mass_at sm preds i st). same_side (Temperature (Config d0)) temp S"
    obtain d1 x1 p1 mp1 where st: "st = (d1, x1, p1, mp1)" by (cases st)
    have "Temperature (Config d1) = Temperature (Config d0)"
      using P st by (simp add: topk_only_temperature)
    with A st show "better_position sm rnd preds i (retemp temp st)
                 = map_sum id (retemp temp) (better_position sm rnd preds i st)"
      by (simp add: better_position_same_side)
  qed
  show ?thesis
  proof (cases "for_each (better_position sm rnd preds) [0 ..< length x] (d, x, p, [])")
    case (Inl e)
    with Cons loop show ?thesis
      by (simp add: better_step_def retemp_def set_temperature_fields)
  next
    case (Inr st)
    obtain d3 x3 p3 mp3 where st: "st = (d3, x3, p3, mp3)" by (cases st)
    with Cons loop Inr show ?thesis
      by (simp add: better_step_def retemp_def set_temperature_fields split: prod.splits)
  qed
qed

lemma GenerateBetter_same_side:
  assumes "\<forall>S \<in> set (GenerateBetter_masses d fwd sm rnd p). same_side (Temperature (Config d)) temp S"
  shows "GenerateBetter (set_temperature d temp) fwd sm rnd p
           = map_sum id (retemp temp) (GenerateBetter d fwd sm rnd p)"
proof -
  let ?steps = "rev [0 ..< NumTimesteps (Config d)]"
  let ?start = "(d, replicate (MaxLength (Config d)) (maskTokenID d), p)"
  have loop: "for_each (better_step fwd sm rnd) ?steps (retemp temp ?start)
          = map_sum id (retemp temp) (for_each (better_step fwd sm rnd) ?steps ?start)"
  proof (rule for_each_met_rel [where P = "\<lambda>st. topk_only d (fst st)"
        and A = "same_side (Temperature (Config d)) temp" and met = "step_masses fwd sm rnd"])
    show "\<forall>S \<in> set (for_each_met (step_masses fwd sm rnd) (better_step fwd sm rnd) ?steps ?start).
            same_side (Temperature (Config d)) temp S"
      using assms by (simp add: GenerateBetter_masses_def)
    show "topk_only d (fst ?start)" by (simp add: topk_only_refl)
  next
    fix t and st st' :: "DiffusionModel \<times> int list \<times> nat"
    assume "topk_only d (fst st)" and "better_step fwd sm rnd t st = Inr st'"
    then show "topk_only d (fst st')"
      by (cases st, cases st') (auto dest: better_step_inv)
  next
    fix t and st :: "DiffusionModel \<times> int list \<times> nat"
    assume "topk_only d (fst st)"
      and "\<forall>S \<in> set (step_masses fwd sm rnd t st). same_side (Temperature (Config d)) temp S"
    then show "better_step fwd sm rnd t (retemp temp st)
                 = map_sum id (retemp temp) (better_step fwd sm rnd t st)"
      by (cases st) (simp add: better_step_same_side)
  qed
  show ?thesis
  proof (cases "for_each (better_step fwd sm rnd) ?steps ?start")
    case (Inl e)
    with loop show ?thesis
      by (simp add: GenerateBetter_def retemp_def set_temperature_fields)
  next
    case (Inr st)
    obtain d3 x3 p3 where "st = (d3, x3, p3)" by (cases st)
    with loop Inr show ?thesis
      by (simp add: GenerateBetter_def retemp_def set_temperature_fields)
  qed
qed


section \<open>The generators' output\<close>

lemma add_word_keeps:
  "Vocab (fst st) w = Some i \<Longrightarrow> Vocab (fst (add_word v st)) w = Some i"
  by (cases st) (auto simp: add_word_def split: option.splits)

lemma add_words_keep:
  "Vocab (fst st) w = Some i \<Longrightarrow> Vocab (fst (fold add_word ws st)) w = Some i"
  by (induction ws arbitrary: st) (simp_all add: add_word_keeps)

lemma add_sentences_keep:
  "Vocab (fst st) w = Some i \<Longrightarrow> Vocab (fst (fold add_sentence ss st)) w = Some i"
  by (induction ss arbitrary: st) (simp_all add: add_sentence_def add_words_keep)

lemma NewCustomTokenizer_special_ids:
  "Vocab (NewCustomTokenizer sentences) ''[PAD]'' = Some 0"
  "Vocab (NewCustomTokenizer sentences) ''[MASK]'' = Some 1"
proof -
  let ?t0 = "fold (\<lambda>i t. add_special t i) [0 ..< length specials] empty_tokenizer"
  have t0: "Vocab ?t0 ''[PAD]'' = Some 0" "Vocab ?t0 ''[MASK]'' = Some 1"
    by (simp_all add: add_special_def specials_def empty_tokenizer_def upt_rec)
  have "Vocab (fst (fold add_sentence sentences (?t0, 4))) ''[PAD]'' = Some 0"
    using t0(1) by (intro add_sentences_keep) simp
  then show "Vocab (NewCustomTokenizer sentences) ''[PAD]'' = Some 0"
    by (simp add: NewCustomTokenizer_def Let_def specials_def split_beta)
  have "Vocab (fst (fold add_sentence sentences (?t0, 4))) ''[MASK]'' = Some 1"
    using t0(2) by (intro add_sentences_keep) simp
  then show "Vocab (NewCustomTokenizer sentences) ''[MASK]'' = Some 1"
    by (simp add: NewCustomTokenizer_def Let_def specials_def split_beta)
qed

lemma constructed_special_ids:
  "padTokenID (NewDiffusionModel config sentences) = 0"
  "maskTokenID (NewDiffusionModel config sentences) = 1"
  by (simp_all add: padTokenID_def maskTokenID_def vocab_id_def NewDiffusionModel_Tokenizer
      NewCustomTokenizer_special_ids)

text \<open>
  Claim C5. Let the id of \<^verbatim>\<open>[MASK]\<close> differ from 0, as it does for every constructed
  model (\<open>constructed_special_ids\<close>). Whatever the network, \<^verbatim>\<open>Softmax\<close> and the
  draws are, the sequence a run of \<^verbatim>\<open>GenerateMasked\<close> decodes and the sequence a run of
  \<^verbatim>\<open>GenerateBetter\<close> returns have \<^verbatim>\<open>MaxLength\<close> tokens and none of them is
  \<^verbatim>\<open>[MASK]\<close>. The runs do return: \<^verbatim>\<open>GenerateBetter\<close> whenever network and softmax are
  well shaped, \<^verbatim>\<open>GenerateMasked\<close> when moreover \<^verbatim>\<open>TopK\<close> lies between 1 and the size of
  the vocabulary.
\<close>

theorem C5_no_mask_in_output:
  assumes "maskTokenID d \<noteq> 0"
  shows "(\<forall>xs p'. GenerateMasked_tokens d fwd sm rnd p = Inr (xs, p') \<longrightarrow>
            maskTokenID d \<notin> set xs \<and> length xs = MaxLength (Config d)
            \<and> GenerateMasked d fwd sm rnd p = Inr (Decode (Tokenizer d) xs, p'))
       \<and> (\<forall>d' xs p'. GenerateBetter d fwd sm rnd p = Inr (d', xs, p') \<longrightarrow>
            maskTokenID d \<notin> set xs \<and> length xs = MaxLength (Config d))
       \<and> (well_shaped d fwd sm \<longrightarrow>
            (\<exists>d' xs p'. GenerateBetter d fwd sm rnd p = Inr (d', xs, p'))
            \<and> (1 \<le> TopK (Config d) \<and> TopK (Config d) \<le> int (VocabSize (Tokenizer d)) \<longrightarrow>
                 (\<exists>xs p'. GenerateMasked_tokens d fwd sm rnd p = Inr (xs, p'))))"
proof (intro conjI allI impI)
  fix xs p'
  assume run: "GenerateMasked_tokens d fwd sm rnd p = Inr (xs, p')"
  show "maskTokenID d \<notin> set xs" using run assms by (rule GenerateMasked_tokens_no_mask)
  show "length xs = MaxLength (Config d)" using run by (rule GenerateMasked_tokens_length)
  show "GenerateMasked d fwd sm rnd p = Inr (Decode (Tokenizer d) xs, p')"
    using run by (simp add: GenerateMasked_def)
next
  fix d' xs p'
  assume run: "GenerateBetter d fwd sm rnd p = Inr (d', xs, p')"
  show "maskTokenID d \<notin> set xs" using run assms by (rule GenerateBetter_no_mask)
  show "length xs = MaxLength (Config d)" using GenerateBetter_inv [OF run] by simp
next
  assume "well_shaped d fwd sm"
  then show "\<exists>d' xs p'. GenerateBetter d fwd sm rnd p = Inr (d', xs, p')"
    by (rule GenerateBetter_total)
next
  assume "well_shaped d fwd sm"
    and "1 \<le> TopK (Config d) \<and> TopK (Config d) \<le> int (VocabSize (Tokenizer d))"
  then show "\<exists>xs p'. GenerateMasked_tokens d fwd sm rnd p = Inr (xs, p')"
    by (intro GenerateMasked_tokens_total) simp_all
qed

lemma Softmax_flat: "Softmax [0, 0, 0, 0] = [1 / 4, 1 / 4, 1 / 4, 1 / 4]"
  by (simp add: Softmax_def)

lemma gen_example_well_shaped: "well_shaped (gen_example k temp) flat_fwd Softmax"
  by (simp add: well_shaped_def gen_example_facts gen_config_def flat_fwd_def Softmax_def)

lemmas gen_eval2 = gen_eval const_tape_def Softmax_flat

lemma gen_masked_run:
  "GenerateMasked_tokens (gen_example 2 1) flat_fwd Softmax (const_tape (3 / 4)) 0 = Inr ([2], 2)"
  by (simp add: gen_eval2)

lemma gen_better_run:
  "GenerateBetter (gen_example 2 1) flat_fwd Softmax (const_tape (3 / 4)) 0
     = Inr (gen_example 2 1, [0], 2)"
  by (simp add: gen_eval2)

theorem C5_no_mask_in_output_witness:
  "1 \<notin> set [2 :: int]
   \<and> GenerateMasked (gen_example 2 1) flat_fwd Softmax (const_tape (3 / 4)) 0
       = Inr (Decode (Tokenizer (gen_example 2 1)) [2], 2)
   \<and> (\<exists>d' xs p'. GenerateBetter (gen_example 2 1) flat_fwd Softmax (const_tape (3 / 4)) 0
                    = Inr (d', xs, p') \<and> 1 \<notin> set xs)"
proof -
  have m: "maskTokenID (gen_example 2 1) \<noteq> 0" by (simp add: gen_example_facts)
  note inst = C5_no_mask_in_output [OF m, of flat_fwd Softmax "const_tape (3 / 4)" 0]
  from inst gen_masked_run
  have a: "maskTokenID (gen_example 2 1) \<notin> set [2]
      \<and> GenerateMasked (gen_example 2 1) flat_fwd Softmax (const_tape (3 / 4)) 0
           = Inr (Decode (Tokenizer (gen_example 2 1)) [2], 2)"
    by blast
  from inst gen_example_well_shaped [of 2 1]
  obtain d' xs p' where
    r: "GenerateBetter (gen_example 2 1) flat_fwd Softmax (const_tape (3 / 4)) 0 = Inr (d', xs, p')"
    by blast
  with inst have "maskTokenID (gen_example 2 1) \<notin> set xs" by blast
  with a r show ?thesis by (auto simp: gen_example_facts)
qed


section \<open>Top-k, configuration, fallback and temperature\<close>

text \<open>
  Claim C4 asks both generators to clamp \<^verbatim>\<open>TopK\<close> into \<open>[1, VocabSize]\<close> and to
  complete. \<^verbatim>\<open>GenerateBetter\<close> does (\<open>clamp_topk_range\<close>, \<open>GenerateBetter_total\<close>);
  \<^verbatim>\<open>GenerateMasked\<close> keeps \<^verbatim>\<open>TopK\<close> as configured. Over the vocabulary of four tokens
  a run with \<^verbatim>\<open>TopK = 5\<close> panics at the slice expression \<^verbatim>\<open>topK[:5]\<close>, and a run with
  \<^verbatim>\<open>TopK = 0\<close> at the read of \<^verbatim>\<open>topK[0]\<close>.
\<close>

theorem C4_generate_masked_topk_unclamped:
  "GenerateMasked (gen_example 5 1) flat_fwd Softmax (const_tape (3 / 4)) 0
     = Inl SliceBoundsOutOfRange
   \<and> GenerateMasked (gen_example 0 1) flat_fwd Softmax (const_tape (3 / 4)) 0
     = Inl IndexOutOfRange
   \<and> VocabSize (Tokenizer (gen_example 5 1)) = 4"
  by (simp add: GenerateMasked_def gen_eval2)

lemma gen_better_run_zero:
  "GenerateBetter (gen_example 0 1) flat_fwd Softmax (const_tape (3 / 4)) 0
     = Inr ((gen_example 0 1)\<lparr>Config := gen_config 1 1\<rparr>, [0], 2)"
  by (simp add: gen_eval2)

text \<open>
  Claim C8, amended. The noising functions, the trainers, \<^verbatim>\<open>Generate\<close> and
  \<^verbatim>\<open>GenerateMasked\<close> contain no assignment to the model and are embedded as functions
  that do not return it. \<^verbatim>\<open>GenerateBetter\<close> assigns to \<^verbatim>\<open>d.Config.TopK\<close>: the model it
  leaves behind agrees with the model it started from on the tokenizer, on the
  mask-fraction table and on every field of the configuration other than \<^verbatim>\<open>TopK\<close>; and
  when \<^verbatim>\<open>TopK\<close> lies between 1 and the size of the vocabulary (and \<^verbatim>\<open>Softmax\<close> returns
  as many probabilities as it gets logits) the model is unchanged altogether.
\<close>

theorem C8_generate_better_frame:
  assumes "GenerateBetter d fwd sm rnd p = Inr (d', xs, p')"
  shows "topk_only d d'
       \<and> ((\<forall>logits. length (sm logits) = length logits)
            \<and> 1 \<le> TopK (Config d) \<and> TopK (Config d) \<le> int (VocabSize (Tokenizer d))
          \<longrightarrow> d' = d)"
  using GenerateBetter_inv [OF assms] GenerateBetter_same [OF assms] by blast

theorem C8_generate_better_frame_witness:
  "topk_only (gen_example 0 1) ((gen_example 0 1)\<lparr>Config := gen_config 1 1\<rparr>)"
  using C8_generate_better_frame [OF gen_better_run_zero] by (rule conjunct1)

text \<open>The claim as stated fails: a run of \<^verbatim>\<open>GenerateBetter\<close> on a model configured with
  \<^verbatim>\<open>TopK = 0\<close> leaves the model with \<^verbatim>\<open>TopK = 1\<close>.\<close>

theorem C8_config_counterexample:
  "GenerateBetter (gen_example 0 1) flat_fwd Softmax (const_tape (3 / 4)) 0
     = Inr ((gen_example 0 1)\<lparr>Config := gen_config 1 1\<rparr>, [0], 2)
   \<and> TopK (Config (gen_example 0 1)) = 0
   \<and> TopK (Config ((gen_example 0 1)\<lparr>Config := gen_config 1 1\<rparr>)) = 1"
  using gen_better_run_zero by (simp add: gen_example_facts gen_config_def)






text \<open>The run of \<^verbatim>\<open>GenerateBetter\<close> on the example model with \<^verbatim>\<open>Softmax\<close> meets one
  remaining mass, \<open>3/4\<close>: the mass of the uniform distribution on four tokens without
  \<^verbatim>\<open>[MASK]\<close>.\<close>

lemma gen_better_masses:
  "GenerateBetter_masses (gen_example 1 1) flat_fwd Softmax (const_tape (3 / 4)) 0 = [3 / 4]"
  by (simp add: gen_eval2 GenerateBetter_masses_def step_masses_def mass_at_def remaining_mass_def)

text \<open>
  Claim C10, amended. With \<^verbatim>\<open>float64\<close> arithmetic read as exact, two runs of
  \<^verbatim>\<open>GenerateMasked\<close> from the same model, network and draws under any two positive
  temperatures return the same result. For \<^verbatim>\<open>GenerateBetter\<close> this holds when every
  remaining mass the run meets at a masked position (\<open>GenerateBetter_masses\<close>) falls on the
  same side of the threshold \<open>10\<^sup>-\<^sup>1\<^sup>2\<close> once divided by either temperature
  (\<open>same_side\<close>); the runs then return the same sequence and read the same draws.
\<close>

theorem C10_temperature:
  assumes "0 < Temperature (Config d)" and "0 < temp"
  shows "GenerateMasked (set_temperature d temp) fwd sm rnd p = GenerateMasked d fwd sm rnd p
       \<and> ((\<forall>S \<in> set (GenerateBetter_masses d fwd sm rnd p).
               same_side (Temperature (Config d)) temp S) \<longrightarrow>
            map_sum id snd (GenerateBetter (set_temperature d temp) fwd sm rnd p)
              = map_sum id snd (GenerateBetter d fwd sm rnd p))"
proof -
  have "map_sum id snd (GenerateBetter (set_temperature d temp) fwd sm rnd p)
              = map_sum id snd (GenerateBetter d fwd sm rnd p)"
    if "\<forall>S \<in> set (GenerateBetter_masses d fwd sm rnd p). same_side (Temperature (Config d)) temp S"
    unfolding GenerateBetter_same_side [OF that]
    by (cases "GenerateBetter d fwd sm rnd p") (simp_all add: retemp_def)
  with GenerateMasked_temperature [OF assms] show ?thesis by blast
qed

theorem C10_temperature_witness:
  "0 < Temperature (Config (gen_example 1 1)) \<and> (0 :: real) < 2
   \<and> GenerateBetter_masses (gen_example 1 1) flat_fwd Softmax (const_tape (3 / 4)) 0 = [3 / 4]
   \<and> same_side (Temperature (Config (gen_example 1 1))) 2 (3 / 4)
   \<and> GenerateMasked (set_temperature (gen_example 1 1) 2) flat_fwd Softmax (const_tape (3 / 4)) 0
       = GenerateMasked (gen_example 1 1) flat_fwd Softmax (const_tape (3 / 4)) 0
   \<and> map_sum id snd (GenerateBetter (set_temperature (gen_example 1 1) 2) flat_fwd Softmax
                         (const_tape (3 / 4)) 0)
       = map_sum id snd (GenerateBetter (gen_example 1 1) flat_fwd Softmax (const_tape (3 / 4)) 0)"
proof -
  have t: "0 < Temperature (Config (gen_example 1 1))"
    by (simp add: gen_example_facts gen_config_def)
  have s: "same_side (Temperature (Config (gen_example 1 1))) 2 (3 / 4)"
    by (simp add: gen_example_facts gen_config_def same_side_def eff_temperature_def)
  have h: "\<forall>S \<in> set (GenerateBetter_masses (gen_example 1 1) flat_fwd Softmax (const_tape (3 / 4)) 0).
             same_side (Temperature (Config (gen_example 1 1))) 2 S"
    using s by (simp add: gen_better_masses)
  have two: "(0 :: real) < 2" by simp
  note inst = C10_temperature [OF t two, where fwd = flat_fwd and sm = Softmax
      and rnd = "const_tape (3 / 4)" and p = 0]
  from inst [THEN conjunct1] inst [THEN conjunct2, THEN mp, OF h] t s gen_better_masses
  show ?thesis by simp
qed

text \<open>The claim as stated fails for \<^verbatim>\<open>GenerateBetter\<close>: under the temperature 1 the
  run returns token 3, and under the temperature \<open>10\<^sup>1\<^sup>3\<close> the mass \<open>9/10\<close> over
  the temperature falls below the threshold and the run returns token 0.\<close>

theorem C10_better_temperature_counterexample:
  "map_sum id snd (GenerateBetter (gen_example 1 1) flat_fwd peaked_sm (const_tape (3 / 4)) 0)
     = Inr ([3], 2)
   \<and> map_sum id snd (GenerateBetter (set_temperature (gen_example 1 1) (10 ^ 13)) flat_fwd peaked_sm
          (const_tape (3 / 4)) 0)
     = Inr ([0], 1)"
  by (simp add: gen_eval2 set_temperature_def)


section \<open>Pad positions in noising and training\<close>

lemma add_noise_loop_pad:
  "length (fst (add_noise_loop level padID maskID rnd p xs)) = length xs
   \<and> (\<forall>k < length xs. xs ! k = padID \<longrightarrow>
         fst (add_noise_loop level padID maskID rnd p xs) ! k = padID)"
proof (induction xs arbitrary: p)
  case Nil
  then show ?case by simp
next
  case (Cons x xs)
  have "fst (add_noise_loop level padID maskID rnd p (x # xs)) ! k = padID"
    if "k < length (x # xs)" "(x # xs) ! k = padID" for k
    using that Cons [of "Suc p"] by (cases k) (auto simp: Let_def split_beta)
  with Cons [of "Suc p"] show ?case by (simp add: Let_def split_beta)
qed

lemma add_noise_masked_loop_pad:
  "length (fst (add_noise_masked_loop level padID maskID rnd p xs)) = length xs
   \<and> (\<forall>k < length xs. xs ! k = padID \<longrightarrow>
         fst (add_noise_masked_loop level padID maskID rnd p xs) ! k = padID)"
proof (induction xs arbitrary: p)
  case Nil
  then show ?case by simp
next
  case (Cons x xs)
  have "fst (add_noise_masked_loop level padID maskID rnd p (x # xs)) ! k = padID"
    if "k < length (x # xs)" "(x # xs) ! k = padID" for k
    using that Cons [of "Suc p"] Cons [of p] by (cases k) (auto simp: Let_def split_beta)
  with Cons [of "Suc p"] Cons [of p] show ?case by (simp add: Let_def split_beta)
qed

lemma fit_length_length: "length (fit_length d tokens) = MaxLength (Config d)"
  by (simp add: fit_length_def)

lemma AddNoise_pad:
  "length (fst (AddNoise d rnd p tokens t)) = MaxLength (Config d)"
  "k < MaxLength (Config d) \<Longrightarrow> fit_length d tokens ! k = padTokenID d
     \<Longrightarrow> fst (AddNoise d rnd p tokens t) ! k = padTokenID d"
  using add_noise_loop_pad [of _ "padTokenID d" "maskTokenID d" rnd p "fit_length d tokens"]
  by (simp_all add: AddNoise_def Let_def fit_length_length)

lemma AddNoiseMasked_pad:
  "length (fst (AddNoiseMasked d rnd p tokens tVal)) = MaxLength (Config d)"
  "k < MaxLength (Config d) \<Longrightarrow> fit_length d tokens ! k = padTokenID d
     \<Longrightarrow> fst (AddNoiseMasked d rnd p tokens tVal) ! k = padTokenID d"
  using add_noise_masked_loop_pad [of tVal "padTokenID d" "maskTokenID d" rnd p "fit_length d tokens"]
  by (simp_all add: AddNoiseMasked_def fit_length_length)

lemma BetterAddNoise_pad:
  assumes "BetterAddNoise d rni q x0 t = Inr (xt, q')"
  shows "length xt = length x0 \<and> (\<forall>k < length x0. x0 ! k = padTokenID d \<longrightarrow> xt ! k = padTokenID d)"
proof (cases "MaskFraction d ! t \<le> 0")
  case True
  with assms show ?thesis by (auto simp: BetterAddNoise_def Let_def split: if_splits)
next
  case False
  define idxes where "idxes = fst (Shuffle rni q (filter (\<lambda>i. x0 ! i \<noteq> padTokenID d) [0 ..< length x0]))"
  define k where "k = Round (real (length idxes) * MaskFraction d ! t)"
  from assms False have run: "for_each (mask_index idxes (maskTokenID d)) [0 ..< nat k] x0 = Inr xt"
    by (auto simp: BetterAddNoise_def Let_def idxes_def k_def split_beta split: if_splits sum.splits)
  have "set idxes = set (filter (\<lambda>i. x0 ! i \<noteq> padTokenID d) [0 ..< length x0])"
    unfolding idxes_def by (intro mset_eq_setD Shuffle_mset)
  then have nonpad: "\<forall>i \<in> set idxes. x0 ! i \<noteq> padTokenID d" by simp
  have "length xt = length x0 \<and> (\<forall>j < length x0. x0 ! j = padTokenID d \<longrightarrow> xt ! j = padTokenID d)"
  proof (rule for_each_invariant [OF run])
    show "length x0 = length x0 \<and> (\<forall>j < length x0. x0 ! j = padTokenID d \<longrightarrow> x0 ! j = padTokenID d)"
      by simp
  next
    fix i and noisy noisy' :: "int list"
    assume inv: "length noisy = length x0
        \<and> (\<forall>j < length x0. x0 ! j = padTokenID d \<longrightarrow> noisy ! j = padTokenID d)"
      and step: "mask_index idxes (maskTokenID d) i noisy = Inr noisy'"
    from step have i: "i < length idxes" and n': "noisy' = noisy[idxes ! i := maskTokenID d]"
      by (auto simp: mask_index_def split: if_splits)
    have "x0 ! (idxes ! i) \<noteq> padTokenID d" using nonpad i by simp
    then have "noisy' ! j = padTokenID d" if "j < length x0" "x0 ! j = padTokenID d" for j
      using that inv n' by (cases "j = idxes ! i") simp_all
    with inv n' show "length noisy' = length x0
        \<and> (\<forall>j < length x0. x0 ! j = padTokenID d \<longrightarrow> noisy' ! j = padTokenID d)"
      by simp
  qed
  then show ?thesis .
qed

lemma write_zero_loop:
  "for_each (write_zero start) [0 ..< n] terms = Inr terms' \<Longrightarrow>
   length terms' = length terms
   \<and> (\<forall>i < length terms. terms' ! i = (if start \<le> i \<and> i < start + n then 0 else terms ! i))"
proof (induction n arbitrary: terms')
  case 0
  then show ?case by auto
next
  case (Suc n)
  from Suc.prems obtain mid where mid: "for_each (write_zero start) [0 ..< n] terms = Inr mid"
      and last: "write_zero start n mid = Inr terms'"
    by (auto simp: for_each_append split: sum.splits)
  from last have t': "terms' = mid[start + n := 0]" "start + n < length mid"
    by (auto simp: write_zero_def split: if_splits)
  from Suc.IH [OF mid] t' show ?case by (auto simp: nth_list_update)
qed

lemma write_delta_loop:
  "for_each (write_delta probs target start) [0 ..< n] terms = Inr terms' \<Longrightarrow>
   length terms' = length terms
   \<and> (\<forall>i < length terms. \<not> (start \<le> i \<and> i < start + n) \<longrightarrow> terms' ! i = terms ! i)"
proof (induction n arbitrary: terms')
  case 0
  then show ?case by auto
next
  case (Suc n)
  from Suc.prems obtain mid where mid: "for_each (write_delta probs target start) [0 ..< n] terms = Inr mid"
      and last: "write_delta probs target start n mid = Inr terms'"
    by (auto simp: for_each_append split: sum.splits)
  from last obtain v where t': "terms' = mid[start + n := v]"
    by (auto simp: write_delta_def split: if_splits)
  from Suc.IH [OF mid] t' show ?case by (auto simp: nth_list_update)
qed

lemma masked_loss_frame:
  assumes "masked_loss sm V preds targets k (loss, terms) = Inr (loss', terms')"
  shows "length terms' = length terms
   \<and> (\<forall>i < length terms. \<not> (k * V \<le> i \<and> i < k * V + V) \<longrightarrow> terms' ! i = terms ! i)"
proof -
  from assms obtain probs target where
    "for_each (write_delta probs target (k * V)) [0 ..< V] terms = Inr terms'"
    by (auto simp: masked_loss_def Let_def split: sum.splits if_splits)
  then show ?thesis by (rule write_delta_loop)
qed

lemma other_row:
  fixes k k' m V :: nat
  assumes "k' \<noteq> k" and "m < V"
  shows "\<not> (k' * V \<le> k * V + m \<and> k * V + m < k' * V + V)"
proof (cases "k' < k")
  case True
  then have "Suc k' \<le> k" by simp
  then have "Suc k' * V \<le> k * V" by (rule mult_le_mono1)
  then show ?thesis by simp
next
  case False
  with assms(1) have "Suc k \<le> k'" by simp
  then have "Suc k * V \<le> k' * V" by (rule mult_le_mono1)
  with assms(2) show ?thesis by simp
qed

lemma row_in_range: "k < L \<Longrightarrow> m < V \<Longrightarrow> k * V + m < L * (V::nat)"
proof -
  assume "k < L" "m < V"
  then have "Suc k * V \<le> L * V" by (intro mult_le_mono1) simp
  with \<open>m < V\<close> show ?thesis by simp
qed

lemma worker_position_zero_row:
  assumes step: "worker_position sm V maskID noisy targets outp k' (loss, terms) = Inr (loss', terms')"
    and inv: "length terms = L * V" "zero_row V k terms"
    and k: "k < L" and pad: "noisy ! k \<noteq> maskID"
  shows "length terms' = L * V \<and> zero_row V k terms'"
proof (cases "noisy ! k' = maskID")
  case True
  then have ne: "k' \<noteq> k" using pad by auto
  from step True obtain preds where "masked_loss sm V preds targets k' (loss, terms) = Inr (loss', terms')"
    by (auto simp: worker_position_def split: if_splits list.splits)
  from masked_loss_frame [OF this] inv k other_row [OF ne] show ?thesis
    by (auto simp: zero_row_def row_in_range)
next
  case False
  with step have w: "for_each (write_zero (k' * V)) [0 ..< V] terms = Inr terms'"
    by (auto simp: worker_position_def split: if_splits sum.splits)
  from write_zero_loop [OF w] inv k show ?thesis
    by (auto simp: zero_row_def row_in_range)
qed

lemma worker_position_loss:
  assumes "worker_position sm V maskID noisy targets outp k st = Inr st'" and "noisy ! k \<noteq> maskID"
  shows "fst st' = fst st"
  using assms by (auto simp: worker_position_def split: if_splits sum.splits)

lemma worker_sample_zero_row:
  assumes run: "worker_sample sm L V maskID noisy targets outp loss = Inr (loss', terms)"
    and k: "k < L" and pad: "noisy ! k \<noteq> maskID"
  shows "zero_row V k terms"
proof -
  have "case (loss', terms) of (l, ts) \<Rightarrow> length ts = L * V \<and> zero_row V k ts"
  proof (rule for_each_invariant [OF run [unfolded worker_sample_def]])
    show "case (loss, replicate (L * V) 0) of (l, ts) \<Rightarrow> length ts = L * V \<and> zero_row V k ts"
      using k by (simp add: zero_row_def row_in_range)
  next
    fix k' and st st' :: "real \<times> real list"
    assume "case st of (l, ts) \<Rightarrow> length ts = L * V \<and> zero_row V k ts"
      and "worker_position sm V maskID noisy targets outp k' st = Inr st'"
    then show "case st' of (l, ts) \<Rightarrow> length ts = L * V \<and> zero_row V k ts"
      using worker_position_zero_row [of sm V maskID noisy targets outp k' "fst st" "snd st"
          "fst st'" "snd st'" L k] k pad
      by (cases st, cases st') simp
  qed
  then show ?thesis by simp
qed

lemma noise_pass:
  "for_each (noise_round model L rnd) batch (nb0, in0, p0) = Inr (nb, inp, p') \<Longrightarrow>
   \<exists>nb'. nb = nb0 @ nb' \<and> length nb' = length batch
     \<and> (\<forall>j < length batch. \<exists>p tVal. nb' ! j = fst (AddNoiseMasked model rnd p (batch ! j) tVal))
     \<and> (batch \<noteq> [] \<longrightarrow> MaxLength (Config model) \<le> L)"
proof (induction batch arbitrary: nb0 in0 p0)
  case Nil
  then show ?case by simp
next
  case (Cons tokens batch)
  let ?noisy = "fst (AddNoiseMasked model rnd (Suc p0) tokens (rnd p0))"
  from Cons.prems obtain s1 where
    first: "noise_round model L rnd tokens (nb0, in0, p0) = Inr s1"
    and rest1: "for_each (noise_round model L rnd) batch s1 = Inr (nb, inp, p')"
    by (auto split: sum.splits)
  from first obtain in1 p1 where
    ok: "\<not> length ?noisy > L" and s1: "s1 = (nb0 @ [?noisy], in1, p1)"
    by (auto simp: noise_round_def worker_noise_def Let_def split_beta split: sum.splits if_splits)
  from rest1 s1
  have rest: "for_each (noise_round model L rnd) batch (nb0 @ [?noisy], in1, p1) = Inr (nb, inp, p')"
    by simp
  from Cons.IH [OF rest] obtain nb' where nb': "nb = (nb0 @ [?noisy]) @ nb'" "length nb' = length batch"
    "\<forall>j < length batch. \<exists>p tVal. nb' ! j = fst (AddNoiseMasked model rnd p (batch ! j) tVal)"
    by blast
  have "\<exists>p tVal. (?noisy # nb') ! j = fst (AddNoiseMasked model rnd p ((tokens # batch) ! j) tVal)"
    if "j < length (tokens # batch)" for j
    using that nb'(3) by (cases j) auto
  moreover have "MaxLength (Config model) \<le> L"
    using ok by (simp add: AddNoiseMasked_pad(1))
  ultimately show ?case using nb'(1,2) by (intro exI [of _ "?noisy # nb'"]) simp
qed

lemma loss_pass:
  "for_each (loss_round sm L V m nb tg outs) [0 ..< n] (l0, e0) = Inr (l, bet) \<Longrightarrow>
   \<exists>e'. bet = e0 @ e' \<and> length e' = n
     \<and> (\<forall>j < n. \<exists>loss loss'. worker_sample sm L V m (nb ! j) (tg ! j) (outs ! j) loss = Inr (loss', e' ! j))"
proof (induction n arbitrary: l bet)
  case 0
  then show ?case by simp
next
  case (Suc n)
  from Suc.prems obtain l1 e1 where
    mid: "for_each (loss_round sm L V m nb tg outs) [0 ..< n] (l0, e0) = Inr (l1, e1)"
    and last: "loss_round sm L V m nb tg outs n (l1, e1) = Inr (l, bet)"
    by (auto simp: for_each_append split: sum.splits)
  from last obtain terms where
    t: "worker_sample sm L V m (nb ! n) (tg ! n) (outs ! n) l1 = Inr (l, terms)" "bet = e1 @ [terms]"
    by (auto simp: loss_round_def split: sum.splits)
  from Suc.IH [OF mid] obtain e' where e': "e1 = e0 @ e'" "length e' = n"
    "\<forall>j < n. \<exists>loss loss'. worker_sample sm L V m (nb ! j) (tg ! j) (outs ! j) loss = Inr (loss', e' ! j)"
    by blast
  have "\<exists>loss loss'. worker_sample sm L V m (nb ! j) (tg ! j) (outs ! j) loss
          = Inr (loss', (e' @ [terms]) ! j)" if "j < Suc n" for j
  proof (cases "j = n")
    case True
    then have "(e' @ [terms]) ! j = terms" using e'(2) nth_append_length [of e' terms "[]"] by simp
    with t(1) True
    have "worker_sample sm L V m (nb ! j) (tg ! j) (outs ! j) l1 = Inr (l, (e' @ [terms]) ! j)"
      by simp
    then show ?thesis by blast
  next
    case False
    with that have "j < n" by simp
    with e'(2,3) show ?thesis by (simp add: nth_append)
  qed
  with t(2) e'(1,2) show ?case by (intro exI [of _ "e' @ [terms]"]) simp
qed

lemma worker_rows_length:
  assumes "worker model tokenizer L V fwd sm rnd p batch = Inr (loss, bet, p')"
  shows "length bet = length batch"
proof -
  from assms obtain nb inp l where
    "for_each (loss_round sm L V (vocab_id tokenizer ''[MASK]'') nb batch
        (map (\<lambda>input. fwd [input]) inp)) [0 ..< length batch] (0, []) = Inr (l, bet)"
    by (auto simp: worker_def Let_def split: sum.splits)
  from loss_pass [OF this] show ?thesis by auto
qed

lemma worker_zero_row:
  assumes run: "worker model tokenizer L V fwd sm rnd p batch = Inr (loss, bet, p')"
    and j: "j < length batch" and k: "k < MaxLength (Config model)"
    and pad: "fit_length model (batch ! j) ! k = padTokenID model"
    and ne: "padTokenID model \<noteq> vocab_id tokenizer ''[MASK]''"
  shows "zero_row V k (bet ! j)"
proof -
  from run obtain nb inp l where
    np: "for_each (noise_round model L rnd) batch ([], [], p) = Inr (nb, inp, p')"
    and lp: "for_each (loss_round sm L V (vocab_id tokenizer ''[MASK]'') nb batch
                 (map (\<lambda>input. fwd [input]) inp)) [0 ..< length batch] (0, []) = Inr (l, bet)"
    by (auto simp: worker_def Let_def split: sum.splits)
  from noise_pass [OF np] j obtain q tVal where
    noisy: "nb ! j = fst (AddNoiseMasked model rnd q (batch ! j) tVal)"
    and L: "MaxLength (Config model) \<le> L"
    by fastforce
  from loss_pass [OF lp] j obtain l1 l2 where
    ws: "worker_sample sm L V (vocab_id tokenizer ''[MASK]'') (nb ! j) (batch ! j)
           (map (\<lambda>input. fwd [input]) inp ! j) l1 = Inr (l2, bet ! j)"
    by fastforce
  have "nb ! j ! k = padTokenID model"
    unfolding noisy using k pad by (rule AddNoiseMasked_pad(2))
  then have "nb ! j ! k \<noteq> vocab_id tokenizer ''[MASK]''" using ne by simp
  moreover have "k < L" using k L by simp
  ultimately show ?thesis using ws by (intro worker_sample_zero_row)
qed

lemma better_loss_position_zero_row:
  assumes step: "better_loss_position sm V maskID xt x0 preds i (loss, terms) = Inr (loss', terms')"
    and inv: "length terms = L * V" "zero_row V k terms"
    and k: "k < L" and pad: "xt ! k \<noteq> maskID"
  shows "length terms' = L * V \<and> zero_row V k terms'"
proof (cases "xt ! i = maskID")
  case True
  then have ne: "i \<noteq> k" using pad by auto
  from step True have "masked_loss sm V preds x0 i (loss, terms) = Inr (loss', terms')"
    by (simp add: better_loss_position_def)
  from masked_loss_frame [OF this] inv k other_row [OF ne] show ?thesis
    by (auto simp: zero_row_def row_in_range)
next
  case False
  with step inv show ?thesis by (simp add: better_loss_position_def)
qed

lemma TrainBetter_sample_zero_row:
  assumes run: "TrainBetter_sample d fwd sm rni q x0 = Inr (loss, terms, q')"
    and k: "k < length x0" and pad: "x0 ! k = padTokenID d"
    and ne: "padTokenID d \<noteq> maskTokenID d"
  shows "zero_row (VocabSize (Tokenizer d)) k terms"
proof -
  let ?V = "VocabSize (Tokenizer d)" and ?L = "MaxLength (Config d)"
  from run obtain xt q1 preds where
    noise: "BetterAddNoise d rni (Suc q) x0 (rni q mod NumTimesteps (Config d)) = Inr (xt, q1)"
    and len: "\<not> length xt > ?L"
    and loop: "for_each (better_loss_position sm ?V (maskTokenID d) xt x0 preds) [0 ..< length xt]
                 (0, replicate (?L * ?V) 0) = Inr (loss, terms)"
    by (auto simp: TrainBetter_sample_def Let_def split: if_splits sum.splits list.splits)
  from BetterAddNoise_pad [OF noise] k pad have xt: "length xt = length x0" "xt ! k = padTokenID d"
    by simp_all
  then have kL: "k < ?L" and nm: "xt ! k \<noteq> maskTokenID d" using k len ne by simp_all
  have "case (loss, terms) of (l, ts) \<Rightarrow> length ts = ?L * ?V \<and> zero_row ?V k ts"
  proof (rule for_each_invariant [OF loop])
    show "case (0, replicate (?L * ?V) 0) of (l, ts) \<Rightarrow> length ts = ?L * ?V \<and> zero_row ?V k ts"
      using kL by (simp add: zero_row_def row_in_range)
  next
    fix i and st st' :: "real \<times> real list"
    assume "case st of (l, ts) \<Rightarrow> length ts = ?L * ?V \<and> zero_row ?V k ts"
      and "better_loss_position sm ?V (maskTokenID d) xt x0 preds i st = Inr st'"
    then show "case st' of (l, ts) \<Rightarrow> length ts = ?L * ?V \<and> zero_row ?V k ts"
      using better_loss_position_zero_row [of sm ?V "maskTokenID d" xt x0 preds i "fst st" "snd st"
          "fst st'" "snd st'" ?L k] kL nm
      by (cases st, cases st') simp
  qed
  then show ?thesis by simp
qed

text \<open>
  Claim C3, amended. Let \<^verbatim>\<open>[PAD]\<close> and \<^verbatim>\<open>[MASK]\<close> have different ids, as they do for
  every constructed tokenizer. Whatever the draws: \<^verbatim>\<open>AddNoise\<close>, \<^verbatim>\<open>AddNoiseMasked\<close> and
  \<^verbatim>\<open>BetterAddNoise\<close> leave \<^verbatim>\<open>[PAD]\<close> at every position where the clean sequence (cut or
  padded to \<^verbatim>\<open>MaxLength\<close>) holds it. In the worker of \<^verbatim>\<open>trainMaskedDiffusion\<close> and in
  \<^verbatim>\<open>TrainBetterDiffusion\<close> the round of the position loop at such a position leaves the
  loss as it is, and the error terms of the position are zero in what the worker sends
  and in what \<^verbatim>\<open>TrainBetterDiffusion\<close> hands to \<^verbatim>\<open>Backward\<close>. The basic \<^verbatim>\<open>Train\<close>
  is left out: it computes loss and error terms at every position.
\<close>

theorem C3_pad_positions:
  assumes "padTokenID d \<noteq> maskTokenID d"
    and "padTokenID d \<noteq> vocab_id tokenizer ''[MASK]''"
  shows
    "(\<forall>k < MaxLength (Config d). fit_length d tokens ! k = padTokenID d \<longrightarrow>
        fst (AddNoise d rnd p tokens t) ! k = padTokenID d
        \<and> fst (AddNoiseMasked d rnd p tokens tVal) ! k = padTokenID d
        \<and> (\<forall>st st'. worker_position sm V (vocab_id tokenizer ''[MASK]'')
                        (fst (AddNoiseMasked d rnd p tokens tVal)) targets outp k st = Inr st'
                      \<longrightarrow> fst st' = fst st))
     \<and> (\<forall>xt q' k. BetterAddNoise d rni q x0 t = Inr (xt, q') \<and> k < length x0
            \<and> x0 ! k = padTokenID d \<longrightarrow>
          xt ! k = padTokenID d
          \<and> (\<forall>st. better_loss_position sm V (maskTokenID d) xt x0 preds k st = Inr st))
     \<and> (\<forall>loss terms q' k. TrainBetter_sample d fwd sm rni q x0 = Inr (loss, terms, q')
            \<and> k < length x0 \<and> x0 ! k = padTokenID d \<longrightarrow>
          zero_row (VocabSize (Tokenizer d)) k terms)
     \<and> (\<forall>loss bet p' j k. worker d tokenizer L V fwd sm rnd p batch = Inr (loss, bet, p')
            \<and> j < length batch \<and> k < MaxLength (Config d)
            \<and> fit_length d (batch ! j) ! k = padTokenID d \<longrightarrow>
          zero_row V k (bet ! j))"
proof (intro conjI allI impI)
  fix k
  assume k: "k < MaxLength (Config d)" and pad: "fit_length d tokens ! k = padTokenID d"
  show "fst (AddNoise d rnd p tokens t) ! k = padTokenID d"
    using k pad by (rule AddNoise_pad(2))
  show m: "fst (AddNoiseMasked d rnd p tokens tVal) ! k = padTokenID d"
    using k pad by (rule AddNoiseMasked_pad(2))
  fix st st'
  assume "worker_position sm V (vocab_id tokenizer ''[MASK]'')
            (fst (AddNoiseMasked d rnd p tokens tVal)) targets outp k st = Inr st'"
  moreover have "fst (AddNoiseMasked d rnd p tokens tVal) ! k \<noteq> vocab_id tokenizer ''[MASK]''"
    using m assms(2) by simp
  ultimately show "fst st' = fst st" by (rule worker_position_loss)
next
  fix xt q' k
  assume a: "BetterAddNoise d rni q x0 t = Inr (xt, q') \<and> k < length x0 \<and> x0 ! k = padTokenID d"
  then show x: "xt ! k = padTokenID d" using BetterAddNoise_pad by blast
  fix st
  show "better_loss_position sm V (maskTokenID d) xt x0 preds k st = Inr st"
    using x assms(1) by (simp add: better_loss_position_def)
next
  fix loss terms q' k
  assume "TrainBetter_sample d fwd sm rni q x0 = Inr (loss, terms, q')
            \<and> k < length x0 \<and> x0 ! k = padTokenID d"
  then show "zero_row (VocabSize (Tokenizer d)) k terms"
    using assms(1) TrainBetter_sample_zero_row by blast
next
  fix loss bet p' j k
  assume "worker d tokenizer L V fwd sm rnd p batch = Inr (loss, bet, p')
            \<and> j < length batch \<and> k < MaxLength (Config d)
            \<and> fit_length d (batch ! j) ! k = padTokenID d"
  then show "zero_row V k (bet ! j)"
    using assms(2) worker_zero_row by blast
qed

lemma pad_example_facts:
  "padTokenID (NewDiffusionModel half_example corpus_example) = 0"
  "maskTokenID (NewDiffusionModel half_example corpus_example) = 1"
  "MaxLength (Config (NewDiffusionModel half_example corpus_example)) = 4"
  by (simp_all add: constructed_special_ids NewDiffusionModel_Config half_example_def)

theorem C3_pad_positions_witness:
  "fst (AddNoise (NewDiffusionModel half_example corpus_example) (const_tape 0) 0 [4, 5] 0) ! 2 = 0
   \<and> fst (AddNoiseMasked (NewDiffusionModel half_example corpus_example) (const_tape 0) 0 [4, 5] 1) ! 2 = 0"
proof -
  let ?d = "NewDiffusionModel half_example corpus_example"
  have h: "padTokenID ?d \<noteq> maskTokenID ?d"
    "padTokenID ?d \<noteq> vocab_id (Tokenizer ?d) ''[MASK]''"
    using pad_example_facts by (simp_all add: maskTokenID_def)
  have k: "2 < MaxLength (Config ?d)" "fit_length ?d [4, 5] ! 2 = padTokenID ?d"
    by (simp_all add: pad_example_facts fit_length_def)
  from C3_pad_positions [OF h, of "[4, 5]" "const_tape 0" 0 0 1, THEN conjunct1] k
  have "fst (AddNoise ?d (const_tape 0) 0 [4, 5] 0) ! 2 = padTokenID ?d
        \<and> fst (AddNoiseMasked ?d (const_tape 0) 0 [4, 5] 1) ! 2 = padTokenID ?d"
    by blast
  then show ?thesis by (simp add: pad_example_facts)
qed

text \<open>The claim as stated fails for \<^verbatim>\<open>Train\<close>: for the clean sequence of one \<^verbatim>\<open>[PAD]\<close>
  token and uniform probabilities, that position adds \<open>ln 4\<close> to the loss and gets the
  error terms \<open>(-3/4, 1/4, 1/4, 1/4)\<close>.\<close>

theorem C3_dense_loss_counterexample:
  "Train_sample (gen_example 1 1) flat_fwd Softmax (const_tape (3 / 4)) zero_draws 0 0 [0]
     = Inr (ln 4, [[- 3 / 4, 1 / 4, 1 / 4, 1 / 4]], 1, 1)
   \<and> padTokenID (gen_example 1 1) = 0 \<and> ln 4 \<noteq> (0 :: real)"
  by (simp add: Train_sample_def gen_eval2 zero_draws_def AddNoise_def fit_length_def
      dense_loss_def dense_error_row_def add_loss_def clip_def ln_div)

end
